theory Spec2Isabelle
  imports Main
begin

text \<open>
  A model of the timeline scraper: link discovery and the inline save (\<open>main.ts\<close>), the
  per-post extractor and the batch loop (the \<open>content_downloader\<close> module, which follows
  \<open>test_twitter.ts\<close> and \<open>utils\<close> in the same source file), and the grouping and choice
  of stream segments (\<open>groupSegmentsByQuality\<close> and \<open>downloadTwitterVideo\<close>). Definitions
  come first, under the names of the source; the properties follow.
\<close>

section \<open>Strings\<close>

text \<open>
  JavaScript strings are modelled as HOL strings. The three non-ASCII literals of the
  source are written as their UTF-8 bytes; a substring test on well-formed UTF-8 agrees
  with the substring test on the code units that JavaScript compares.
\<close>

fun startsWith :: "string \<Rightarrow> string \<Rightarrow> bool" where
  "startsWith s [] = True"
| "startsWith [] (c # cs) = False"
| "startsWith (x # xs) (c # cs) = (x = c \<and> startsWith xs cs)"

definition endsWith :: "string \<Rightarrow> string \<Rightarrow> bool" where
  "endsWith s t = startsWith (rev s) (rev t)"

fun js_includes :: "string \<Rightarrow> string \<Rightarrow> bool" where
  "js_includes [] t = (t = [])"
| "js_includes (x # xs) t = (startsWith (x # xs) t \<or> js_includes xs t)"

definition is_digit :: "char \<Rightarrow> bool" where
  "is_digit c = (c \<in> set ''0123456789'')"

definition digit_val :: "char \<Rightarrow> nat" where
  "digit_val c = of_char c - 48"

definition nat_of_digits :: "string \<Rightarrow> nat" where
  "nat_of_digits s = foldl (\<lambda>n c. 10 * n + digit_val c) 0 s"

section \<open>Timeline posts and their classification (main.ts, extractLinks)\<close>

text \<open>
  What the page query of \<open>extractLinks\<close> reads from one rendered \<open>article\<close>: the
  attribute values and the outcome of each \<open>querySelector\<close> it makes.
\<close>

record span_el =
  span_dir :: "string option"
  span_testid :: bool
  span_text :: string

record article =
  time_link_href :: "string option"
  tweet_text :: "string option"
  media_images :: "string list"
  video_player :: bool
  card_poll :: bool
  card_wrapper :: bool
  plain_button :: bool
  spans :: "span_el list"
  collapsed_link :: bool

definition show_more_en :: string where
  "show_more_en = ''Show more''"

definition show_more_zh :: string where
  "show_more_zh = [CHR 0xE6, CHR 0x98, CHR 0xBE, CHR 0xE7, CHR 0xA4, CHR 0xBA,
                   CHR 0xE6, CHR 0x9B, CHR 0xB4, CHR 0xE5, CHR 0xA4, CHR 0x9A]"

definition view_more_zh :: string where
  "view_more_zh = [CHR 0xE6, CHR 0x9F, CHR 0xA5, CHR 0xE7, CHR 0x9C, CHR 0x8B,
                   CHR 0xE6, CHR 0x9B, CHR 0xB4, CHR 0xE5, CHR 0xA4, CHR 0x9A]"

definition hasVideo :: "article \<Rightarrow> bool" where
  "hasVideo a = video_player a"

definition hasPoll :: "article \<Rightarrow> bool" where
  "hasPoll a = card_poll a"

definition hasCard :: "article \<Rightarrow> bool" where
  "hasCard a = card_wrapper a"

definition span_says_more :: "span_el \<Rightarrow> bool" where
  "span_says_more s =
     (span_text s \<noteq> [] \<and>
      (js_includes (span_text s) show_more_en \<or>
       js_includes (span_text s) show_more_zh \<or>
       js_includes (span_text s) view_more_zh))"

definition span_auto_plain :: "span_el \<Rightarrow> bool" where
  "span_auto_plain s = (span_dir s = Some ''auto'' \<and> \<not> span_testid s)"

definition hasShowMore :: "article \<Rightarrow> bool" where
  "hasShowMore a =
     (plain_button a \<or>
      list_ex span_auto_plain (spans a) \<or>
      list_ex span_says_more (spans a) \<or>
      collapsed_link a)"

definition isSimpleTweet :: "article \<Rightarrow> bool" where
  "isSimpleTweet a = (\<not> hasVideo a \<and> \<not> hasPoll a \<and> \<not> hasCard a \<and> \<not> hasShowMore a)"

text \<open>
  The element structure of an article: the same elements and attributes, every text
  content blanked. Two articles with the same structure answer every element-presence
  query alike.
\<close>

definition blank_span :: "span_el \<Rightarrow> span_el" where
  "blank_span s = s\<lparr>span_text := []\<rparr>"

definition structure_of :: "article \<Rightarrow> article" where
  "structure_of a =
     a\<lparr>tweet_text := map_option (\<lambda>_. []) (tweet_text a),
       spans := map blank_span (spans a)\<rparr>"

definition bare_article :: article where
  "bare_article =
     \<lparr>time_link_href = Some ''/u/status/1'', tweet_text = Some ''hello'',
      media_images = [], video_player = False, card_poll = False, card_wrapper = False,
      plain_button = False, spans = [], collapsed_link = False\<rparr>"

definition article_more :: article where
  "article_more =
     bare_article\<lparr>spans := [\<lparr>span_dir = None, span_testid = False, span_text = ''Show more''\<rparr>]\<rparr>"

definition article_plain :: article where
  "article_plain =
     bare_article\<lparr>spans := [\<lparr>span_dir = None, span_testid = False, span_text = ''Good day''\<rparr>]\<rparr>"

section \<open>Grouping stream segments by quality (groupSegmentsByQuality)\<close>

text \<open>
  The first match of \<open>/(\d+)x(\d+)/\<close> in a URL, as \<open>match[0]\<close>. At a start position the
  greedy \<open>\d+\<close> takes the whole run of digits; giving digits back cannot help, since
  the character after a shorter run is a digit and never \<open>x\<close>.
\<close>

definition res_match_at :: "string \<Rightarrow> string option" where
  "res_match_at s =
     (let w = takeWhile is_digit s; r = dropWhile is_digit s in
      if w \<noteq> [] \<and> startsWith r ''x'' \<and> takeWhile is_digit (tl r) \<noteq> []
      then Some (w @ ''x'' @ takeWhile is_digit (tl r)) else None)"

fun res_match :: "string \<Rightarrow> string option" where
  "res_match [] = None"
| "res_match (c # cs) =
     (case res_match_at (c # cs) of Some m \<Rightarrow> Some m | None \<Rightarrow> res_match cs)"

text \<open>
  The first match of \<open>/(\d+)000/\<close>, as \<open>match[1]\<close>. At a start position the greedy
  \<open>\d+\<close> backs off to the last place in the run of digits where \<open>000\<close> follows at
  least one digit.
\<close>

definition bitrate_match_at :: "string \<Rightarrow> string option" where
  "bitrate_match_at s =
     (let run = takeWhile is_digit s in
      case find (\<lambda>k. take 3 (drop k run) = ''000'') (rev [1..<length run - 2]) of
        Some k \<Rightarrow> Some (take k run)
      | None \<Rightarrow> None)"

fun bitrate_match :: "string \<Rightarrow> string option" where
  "bitrate_match [] = None"
| "bitrate_match (c # cs) =
     (case bitrate_match_at (c # cs) of Some m \<Rightarrow> Some m | None \<Rightarrow> bitrate_match cs)"

definition quality :: "string \<Rightarrow> string" where
  "quality url =
     (case res_match url of
        Some m \<Rightarrow> m
      | None \<Rightarrow> (case bitrate_match url of
                   Some b \<Rightarrow> b @ ''kbps''
                 | None \<Rightarrow> ''unknown''))"

text \<open>
  \<open>groups\<close> is a \<open>Record<string, string[]>\<close>. Its keys are never array indices (each
  holds \<open>x\<close>, \<open>kbps\<close> or is \<open>unknown\<close>), so \<open>Object.keys\<close> lists them in insertion
  order: an association list, new keys appended.
\<close>

type_synonym groups = "(string \<times> string list) list"

fun push_group :: "groups \<Rightarrow> string \<Rightarrow> string \<Rightarrow> groups" where
  "push_group [] q url = [(q, [url])]"
| "push_group ((k, us) # g) q url =
     (if k = q then (k, us @ [url]) # g else (k, us) # push_group g q url)"

definition groupSegmentsByQuality :: "string list \<Rightarrow> groups" where
  "groupSegmentsByQuality segments = foldl (\<lambda>g url. push_group g (quality url) url) [] segments"

definition object_keys :: "groups \<Rightarrow> string list" where
  "object_keys g = map fst g"

section \<open>Choosing the groups to download (downloadTwitterVideo)\<close>

fun split_x :: "string \<Rightarrow> string list" where
  "split_x [] = [Nil]"
| "split_x (c # cs) =
     (if c = CHR ''x'' then [] # split_x cs
      else (case split_x cs of [] \<Rightarrow> [[c]] | p # ps \<Rightarrow> (c # p) # ps))"

text \<open>
  The numbers of the comparator are doubles. A double holds every integer up to
  \<open>Number.MAX_SAFE_INTEGER\<close> and the products and differences of such integers that stay
  in that range; there the arithmetic is the exact one. \<open>Num\<close> is such a value, \<open>NaN\<close>
  is \<open>NaN\<close>, and \<open>Rounded\<close> stands for a result beyond the range, where a double rounds:
  it is not computed here.
\<close>

datatype number = Num int | NaN | Rounded

definition MAX_SAFE_INTEGER :: int where
  "MAX_SAFE_INTEGER = 2 ^ 53 - 1"

definition in_range :: "int \<Rightarrow> number" where
  "in_range v = (if \<bar>v\<bar> \<le> MAX_SAFE_INTEGER then Num v else Rounded)"

text \<open>
  \<open>Number\<close> on a piece of a key. The keys that \<open>groupSegmentsByQuality\<close> makes split
  into runs of digits, or into one piece holding a letter (\<open>128kbps\<close>, \<open>unknown\<close>), and
  on those this is what \<open>Number\<close> returns. A piece that is missing (\<open>undefined\<close>) is
  \<open>None\<close>.
\<close>

definition js_Number :: "string \<Rightarrow> number" where
  "js_Number s = (if list_all is_digit s then in_range (int (nat_of_digits s)) else NaN)"

fun js_times :: "number option \<Rightarrow> number option \<Rightarrow> number" where
  "js_times (Some (Num a)) (Some (Num b)) = in_range (a * b)"
| "js_times (Some Rounded) (Some (Num b)) = Rounded"
| "js_times (Some (Num a)) (Some Rounded) = Rounded"
| "js_times (Some Rounded) (Some Rounded) = Rounded"
| "js_times _ _ = NaN"

fun js_minus :: "number \<Rightarrow> number \<Rightarrow> number" where
  "js_minus (Num a) (Num b) = in_range (a - b)"
| "js_minus NaN b = NaN"
| "js_minus (Num a) NaN = NaN"
| "js_minus Rounded NaN = NaN"
| "js_minus (Num a) Rounded = Rounded"
| "js_minus Rounded (Num b) = Rounded"
| "js_minus Rounded Rounded = Rounded"

fun at_index :: "'a list \<Rightarrow> nat \<Rightarrow> 'a option" where
  "at_index [] i = None"
| "at_index (x # xs) 0 = Some x"
| "at_index (x # xs) (Suc i) = at_index xs i"

definition area :: "string \<Rightarrow> number" where
  "area key =
     (let res = map js_Number (split_x key) in js_times (at_index res 0) (at_index res 1))"

text \<open>The comparator handed to \<open>sort\<close>: \<open>areaB - areaA\<close>.\<close>

definition compare_area :: "string \<Rightarrow> string \<Rightarrow> number" where
  "compare_area a b = js_minus (area b) (area a)"

text \<open>
  \<open>Array.prototype.sort\<close>, as the V8 engine of Node.js runs it on an array of strings
  with a comparator (TimSort). \<open>SortCompare\<close> reads a \<open>NaN\<close> from the comparator as
  \<open>+0\<close>. An array of fewer than 64 elements is one run: \<open>CountAndMakeRun\<close> takes the
  longest prefix that is ascending, or strictly descending and then reversed, and
  \<open>BinaryInsertionSort\<close> inserts the elements after it one by one, each at the place a
  binary search finds in the part before it. With a comparator that returns \<open>NaN\<close> for
  some pairs and not for others the result depends on which pairs get compared, so the
  steps are followed as the engine takes them. The work array is kept in two parts: the
  run, and the elements still to be inserted.
\<close>

definition SortCompare :: "string \<Rightarrow> string \<Rightarrow> int" where
  "SortCompare x y = (case compare_area x y of Num v \<Rightarrow> v | _ \<Rightarrow> 0)"

fun run_after :: "bool \<Rightarrow> string \<Rightarrow> string list \<Rightarrow> nat" where
  "run_after isDescending previousElement [] = 0"
| "run_after isDescending previousElement (currentElement # rest) =
     (let order = SortCompare currentElement previousElement in
      if (if isDescending then order \<ge> 0 else order < 0) then 0
      else Suc (run_after isDescending currentElement rest))"

definition CountAndMakeRun :: "string list \<Rightarrow> string list \<times> string list" where
  "CountAndMakeRun workArray =
     (case workArray of
        elementHigh # elementLow # rest \<Rightarrow>
          (let isDescending = (SortCompare elementLow elementHigh < 0);
               runLength = 2 + run_after isDescending elementLow rest;
               run = take runLength workArray
           in (if isDescending then rev run else run, drop runLength workArray))
      | _ \<Rightarrow> (workArray, []))"

function binary_search :: "string \<Rightarrow> string list \<Rightarrow> nat \<Rightarrow> nat \<Rightarrow> nat" where
  "binary_search pivot workArray left right =
     (if left < right then
        (let mid = left + (right - left) div 2 in
         if SortCompare pivot (workArray ! mid) < 0
         then binary_search pivot workArray left mid
         else binary_search pivot workArray (mid + 1) right)
      else left)"
  by pat_completeness auto

termination
  by (relation "measure (\<lambda>(pivot, workArray, left, right). right - left)") auto

declare binary_search.simps [simp del]

fun BinaryInsertionSort :: "string list \<Rightarrow> string list \<Rightarrow> string list" where
  "BinaryInsertionSort run [] = run"
| "BinaryInsertionSort run (pivot # rest) =
     (let left = binary_search pivot run 0 (length run)
      in BinaryInsertionSort (take left run @ pivot # drop left run) rest)"

definition ArrayTimSortImpl :: "string list \<Rightarrow> string list" where
  "ArrayTimSortImpl workArray =
     (if length workArray < 2 then workArray
      else (let r = CountAndMakeRun workArray in BinaryInsertionSort (fst r) (snd r)))"

text \<open>
  The sorted keys; \<open>None\<close> where the steps above do not say what the engine returns: with
  64 keys or more (runs are merged) and with a key whose area is beyond the exact range.
\<close>

definition js_sort :: "string list \<Rightarrow> string list option" where
  "js_sort keys =
     (if length keys < 64 \<and> list_all (\<lambda>k. area k \<noteq> Rounded) keys
      then Some (ArrayTimSortImpl keys) else None)"

text \<open>
  \<open>bestVideoQuality\<close> is element 0 of the sorted keys. The source computes it for a
  non-empty list of segments only, so there is a key; \<open>None\<close> is that of \<open>js_sort\<close>.
  \<open>bestAudioQuality\<close> is element 0 of the keys as they are, \<open>None\<close> (\<open>undefined\<close>) when
  no audio segment was captured.
\<close>

definition bestVideoQuality :: "groups \<Rightarrow> string option" where
  "bestVideoQuality videoGroups =
     (case js_sort (object_keys videoGroups) of
        None \<Rightarrow> None
      | Some sortedKeys \<Rightarrow> at_index sortedKeys 0)"

definition bestAudioQuality :: "groups \<Rightarrow> string option" where
  "bestAudioQuality audioGroups = at_index (object_keys audioGroups) 0"

text \<open>The segments that are downloaded: those of the chosen group.\<close>

definition bestVideoSegments :: "string list \<Rightarrow> string list option" where
  "bestVideoSegments videoSegments =
     (let videoGroups = groupSegmentsByQuality videoSegments in
      case bestVideoQuality videoGroups of
        None \<Rightarrow> None
      | Some q \<Rightarrow> map_of videoGroups q)"

definition bestAudioSegments :: "string list \<Rightarrow> string list option" where
  "bestAudioSegments audioSegments =
     (let audioGroups = groupSegmentsByQuality audioSegments in
      case bestAudioQuality audioGroups of
        None \<Rightarrow> None
      | Some q \<Rightarrow> map_of audioGroups q)"

section \<open>Errors, the file system and the page: what the code acts on\<close>

text \<open>
  A thrown JavaScript error: its numeric \<open>code\<close> when it has one, and its message.
\<close>

record js_error =
  err_code :: "int option"
  message :: string

definition is_rate_limit :: "js_error \<Rightarrow> bool" where
  "is_rate_limit e = (err_code e = Some 429 \<or> js_includes (message e) ''429'')"

text \<open>
  Everything the code does to the outside is appended to a trace: navigation, scrolling,
  timed waits, file writes, HTTP fetches, the console line that announces an inline save
  and the hand-over of a URL list to \<open>processMultipleTweets\<close>.
\<close>

datatype event =
    Goto string
  | ScrollNudge
  | ScrollViewport
  | ScrollBottom
  | WaitFor int
  | MkDir string
  | WriteFile string
  | HttpGet string
  | Screenshot string
  | DirectSave string
  | BatchStart "string list"
  | ClosePage

text \<open>
  The file system lists, for each directory path, the names of the entries in it.
  \<open>path.join\<close> is modelled without normalisation of its arguments.
\<close>

type_synonym filesystem = "(string \<times> string list) list"

record world =
  fs :: filesystem
  trace :: "event list"

definition path_join :: "string \<Rightarrow> string \<Rightarrow> string" where
  "path_join a b = a @ ''/'' @ b"

definition dir_exists :: "filesystem \<Rightarrow> string \<Rightarrow> bool" where
  "dir_exists f d = list_ex (\<lambda>(p, es). p = d \<or> startsWith p (d @ ''/'')) f"

definition readdir :: "filesystem \<Rightarrow> string \<Rightarrow> string list" where
  "readdir f d = (case map_of f d of None \<Rightarrow> [] | Some es \<Rightarrow> es)"

definition file_exists :: "filesystem \<Rightarrow> string \<Rightarrow> string \<Rightarrow> bool" where
  "file_exists f d name = (name \<in> set (readdir f d))"

fun put_dir :: "filesystem \<Rightarrow> string \<Rightarrow> string list \<Rightarrow> filesystem" where
  "put_dir [] d es = [(d, es)]"
| "put_dir ((p, ps) # f) d es = (if p = d then (p, es) # f else (p, ps) # put_dir f d es)"

definition set_add :: "string list \<Rightarrow> string \<Rightarrow> string list" where
  "set_add xs x = (if x \<in> set xs then xs else xs @ [x])"

definition add_entry :: "filesystem \<Rightarrow> string \<Rightarrow> string \<Rightarrow> filesystem" where
  "add_entry f d name = put_dir f d (set_add (readdir f d) name)"

definition emit :: "event \<Rightarrow> world \<Rightarrow> world" where
  "emit ev w = w\<lparr>trace := trace w @ [ev]\<rparr>"

datatype http_result = HttpOk | HttpStatus nat | NetError js_error

text \<open>
  What one post's own page shows when \<open>processTweetContent\<close> visits it: the outcome of
  each wait for the post element, the number of "Show more replies" controls, the image
  addresses in the post, whether it holds a video player and whether the player can be
  captured.
\<close>

record tweet_view =
  text_ready :: bool
  more_buttons :: nat
  images_ready :: bool
  image_srcs :: "string list"
  video_ready :: bool
  video_present :: bool
  screenshot_ok :: bool

text \<open>
  The environment of a run. Obtaining the browser session and opening the page fail where
  \<open>session_fault\<close> and \<open>page_fault\<close> say so. On the page, navigation and waits for a
  selector can time out; queries, scrolling, timed pauses and closing the page are taken
  to return. File writes and fetches fail where \<open>fs_fault\<close> and \<open>http_get\<close> say so.
\<close>

record env =
  session_fault :: "js_error option"
  page_fault :: "js_error option"
  fs_fault :: "string \<Rightarrow> js_error option"
  http_get :: "string \<Rightarrow> http_result"
  articles_appear :: "nat \<Rightarrow> bool"
  feed :: "nat \<Rightarrow> article list"
  tweet_page :: "string \<Rightarrow> tweet_view"

type_synonym 'a outcome = "(js_error + 'a) \<times> world"

definition then_do :: "'a outcome \<Rightarrow> ('a \<Rightarrow> world \<Rightarrow> 'b outcome) \<Rightarrow> 'b outcome" where
  "then_do r f = (case r of (Inl e, w) \<Rightarrow> (Inl e, w) | (Inr a, w) \<Rightarrow> f a w)"

definition catch_do :: "'a outcome \<Rightarrow> (js_error \<Rightarrow> world \<Rightarrow> 'a outcome) \<Rightarrow> 'a outcome" where
  "catch_do r h = (case r of (Inl e, w) \<Rightarrow> h e w | (Inr a, w) \<Rightarrow> (Inr a, w))"

definition mkdirSync :: "env \<Rightarrow> string \<Rightarrow> world \<Rightarrow> unit outcome" where
  "mkdirSync en d w =
     (case fs_fault en d of
        Some e \<Rightarrow> (Inl e, w)
      | None \<Rightarrow> (Inr (), emit (MkDir d) (w\<lparr>fs := put_dir (fs w) d (readdir (fs w) d)\<rparr>)))"

definition writeFileSync :: "env \<Rightarrow> string \<Rightarrow> string \<Rightarrow> world \<Rightarrow> unit outcome" where
  "writeFileSync en d name w =
     (case fs_fault en (path_join d name) of
        Some e \<Rightarrow> (Inl e, w)
      | None \<Rightarrow>
          if dir_exists (fs w) d
          then (Inr (), emit (WriteFile (path_join d name)) (w\<lparr>fs := add_entry (fs w) d name\<rparr>))
          else (Inl \<lparr>err_code = None,
                     message = ''ENOENT: no such file or directory, open '' @ path_join d name\<rparr>, w))"

section \<open>The per-post extractor (content_downloader: processTweetContent)\<close>

text \<open>
  \<open>extractIds\<close>: the first match of \<open>/https:\/\/x\.com\/([^\/]+)\/status\/(\d+)/\<close>
  anywhere in the URL.
\<close>

definition extractIds_at :: "string \<Rightarrow> (string \<times> string) option" where
  "extractIds_at s =
     (if startsWith s ''https://x.com/'' then
        (let r = drop 14 s;
             userId = takeWhile (\<lambda>c. c \<noteq> CHR ''/'') r;
             r2 = dropWhile (\<lambda>c. c \<noteq> CHR ''/'') r;
             postId = takeWhile is_digit (drop 8 r2)
         in if userId \<noteq> [] \<and> startsWith r2 ''/status/'' \<and> postId \<noteq> []
            then Some (userId, postId) else None)
      else None)"

fun extractIds_search :: "string \<Rightarrow> (string \<times> string) option" where
  "extractIds_search [] = None"
| "extractIds_search (c # cs) =
     (case extractIds_at (c # cs) of Some r \<Rightarrow> Some r | None \<Rightarrow> extractIds_search cs)"

definition invalid_url_error :: "string \<Rightarrow> js_error" where
  "invalid_url_error url = \<lparr>err_code = None, message = ''Invalid tweet URL format: '' @ url\<rparr>"

definition extractIds :: "string \<Rightarrow> world \<Rightarrow> (string \<times> string) outcome" where
  "extractIds url w =
     (case extractIds_search url of
        None \<Rightarrow> (Inl (invalid_url_error url), w)
      | Some ids \<Rightarrow> (Inr ids, w))"

definition ensureOutputDir :: "env \<Rightarrow> string \<Rightarrow> string \<Rightarrow> world \<Rightarrow> string outcome" where
  "ensureOutputDir en outputDir userId w =
     (let userDir = path_join outputDir userId in
      then_do (if \<not> dir_exists (fs w) outputDir then mkdirSync en outputDir w else (Inr (), w))
        (\<lambda>_ w1.
           then_do (if \<not> dir_exists (fs w1) userDir then mkdirSync en userDir w1 else (Inr (), w1))
             (\<lambda>_ w2. (Inr userDir, w2))))"

definition timeout_error :: js_error where
  "timeout_error = \<lparr>err_code = None, message = ''Timeout 30000ms exceeded''\<rparr>"

definition download_error :: js_error where
  "download_error = \<lparr>err_code = None, message = ''Failed to download file''\<rparr>"

text \<open>
  \<open>downloadFile\<close> opens the output file, then fetches. \<open>http_get\<close> gives the outcome
  after redirects. A rejected status leaves the opened file behind; a network error
  unlinks it. The text of the rejection is not modelled: every caller only logs it.
\<close>

definition downloadFile :: "env \<Rightarrow> string \<Rightarrow> string \<Rightarrow> string \<Rightarrow> world \<Rightarrow> unit outcome" where
  "downloadFile en url d name w =
     (case http_get en url of
        HttpOk \<Rightarrow>
          (Inr (), emit (WriteFile (path_join d name))
                     (emit (HttpGet url) (w\<lparr>fs := add_entry (fs w) d name\<rparr>)))
      | HttpStatus n \<Rightarrow>
          (Inl download_error, emit (WriteFile (path_join d name))
                     (emit (HttpGet url) (w\<lparr>fs := add_entry (fs w) d name\<rparr>)))
      | NetError e \<Rightarrow> (Inl e, emit (HttpGet url) w))"

text \<open>
  \<open>extractAndSaveText\<close>: the content of the text file is not modelled, only that it
  is written, by the \<open>try\<close> block or, after a failure, by the \<open>catch\<close> block.
  \<open>more_buttons\<close> is the number of "Show more replies" controls found; at most
  three are clicked.
\<close>

definition extractAndSaveText ::
    "env \<Rightarrow> tweet_view \<Rightarrow> string \<Rightarrow> string \<Rightarrow> world \<Rightarrow> unit outcome" where
  "extractAndSaveText en view d name w =
     catch_do
       (if text_ready view then
          (let w1 = emit (WaitFor 2000) (emit ScrollBottom w);
               w2 = foldl (\<lambda>v _. emit (WaitFor 1500) v) w1 [0..<min 3 (more_buttons view)];
               w3 = emit (WaitFor 2000) w2
           in writeFileSync en d name w3)
        else (Inl timeout_error, w))
       (\<lambda>e w'. writeFileSync en d name w')"

fun show_nat :: "nat \<Rightarrow> string" where
  "show_nat n =
     (if n < 10 then [char_of (48 + n)]
      else show_nat (n div 10) @ [char_of (48 + n mod 10)])"

declare show_nat.simps [simp del]

definition image_extension :: "string \<Rightarrow> string" where
  "image_extension url =
     (if js_includes url ''.jpg'' \<or> js_includes url ''.jpeg'' then ''jpg''
      else if js_includes url ''.png'' then ''png''
      else if js_includes url ''.gif'' then ''gif''
      else ''jpg'')"

fun download_images ::
    "env \<Rightarrow> string \<Rightarrow> string \<Rightarrow> nat \<Rightarrow> string list \<Rightarrow> world \<Rightarrow> unit outcome" where
  "download_images en postId d i [] w = (Inr (), w)"
| "download_images en postId d i (url # urls) w =
     then_do
       (downloadFile en url d (postId @ ''-'' @ show_nat (i + 1) @ ''.'' @ image_extension url) w)
       (\<lambda>_ w'. download_images en postId d (i + 1) urls w')"

definition extractAndDownloadImages ::
    "env \<Rightarrow> tweet_view \<Rightarrow> string \<Rightarrow> string \<Rightarrow> world \<Rightarrow> unit outcome" where
  "extractAndDownloadImages en view postId d w =
     catch_do
       (if images_ready view then
          (let imageUrls = filter (\<lambda>u. js_includes u ''https://pbs.twimg.com/media/'') (image_srcs view);
               filteredUrls = filter (\<lambda>url. js_includes url ''/media/'' \<and>
                                          \<not> js_includes url ''profile_images'' \<and>
                                          \<not> js_includes url ''profile_banners'') imageUrls
           in download_images en postId d 0 filteredUrls w)
        else (Inl timeout_error, w))
       (\<lambda>e w'. (Inr (), w'))"

definition extractAndDownloadVideos ::
    "env \<Rightarrow> tweet_view \<Rightarrow> string \<Rightarrow> string \<Rightarrow> world \<Rightarrow> unit outcome" where
  "extractAndDownloadVideos en view postId d w =
     catch_do
       (if video_ready view then
          (if video_present view then
             (let shot = postId @ ''-video-player.png'';
                  w1 = (if screenshot_ok view
                        then emit (Screenshot (path_join d shot)) (w\<lparr>fs := add_entry (fs w) d shot\<rparr>)
                        else w)
              in writeFileSync en d (postId @ ''-video-info.txt'') w1)
           else (Inr (), w))
        else (Inl timeout_error, w))
       (\<lambda>e w'. writeFileSync en d (postId @ ''-video-error.txt'') w')"

text \<open>The six existence checks of processTweetContent, under the source's names.\<close>

definition hasTextFile :: "filesystem \<Rightarrow> string \<Rightarrow> string \<Rightarrow> bool" where
  "hasTextFile f userDir postId = file_exists f userDir (postId @ ''.txt'')"

definition hasImageFiles :: "filesystem \<Rightarrow> string \<Rightarrow> string \<Rightarrow> bool" where
  "hasImageFiles f userDir postId =
     list_ex (\<lambda>file. startsWith file (postId @ ''-'') \<and>
                     (endsWith file ''.jpg'' \<or> endsWith file ''.png'' \<or> endsWith file ''.gif''))
       (readdir f userDir)"

definition hasVideoFile :: "filesystem \<Rightarrow> string \<Rightarrow> string \<Rightarrow> bool" where
  "hasVideoFile f userDir postId = file_exists f userDir (postId @ ''.mp4'')"

definition hasVideoInfo :: "filesystem \<Rightarrow> string \<Rightarrow> string \<Rightarrow> bool" where
  "hasVideoInfo f userDir postId = file_exists f userDir (postId @ ''-video-info.txt'')"

definition hasVideoError :: "filesystem \<Rightarrow> string \<Rightarrow> string \<Rightarrow> bool" where
  "hasVideoError f userDir postId = file_exists f userDir (postId @ ''-video-error.txt'')"

definition hasScreenshot :: "filesystem \<Rightarrow> string \<Rightarrow> string \<Rightarrow> bool" where
  "hasScreenshot f userDir postId = file_exists f userDir (postId @ ''-video-player.png'')"

definition already_processed :: "filesystem \<Rightarrow> string \<Rightarrow> string \<Rightarrow> bool" where
  "already_processed f userDir postId =
     (hasTextFile f userDir postId \<or> hasImageFiles f userDir postId \<or>
      hasVideoFile f userDir postId \<or> hasVideoInfo f userDir postId \<or>
      hasVideoError f userDir postId \<or> hasScreenshot f userDir postId)"

text \<open>
  \<open>safeNavigate\<close> catches every failure of the navigation and its result is not read:
  it is the \<open>Goto\<close> event. The listener for 429 responses that is registered before it
  (\<open>page.on\<close>) is not awaited by anything: it runs beside the flow below, at times that
  the responses and the clock decide, and is not part of this sequential model.
\<close>

text \<open>The work on a post that is not skipped: navigation and the three extractions.\<close>

definition fetch_content :: "env \<Rightarrow> string \<Rightarrow> string \<Rightarrow> string \<Rightarrow> world \<Rightarrow> bool outcome" where
  "fetch_content en tweetUrl userDir postId w =
     (let w3 = emit (Goto tweetUrl) w; view = tweet_page en tweetUrl in
      then_do (extractAndSaveText en view userDir (postId @ ''.txt'') w3)
        (\<lambda>_ w4.
           then_do (extractAndDownloadImages en view postId userDir w4)
             (\<lambda>_ w5.
                then_do (extractAndDownloadVideos en view postId userDir w5)
                  (\<lambda>_ w6. (Inr True, w6)))))"

definition processTweetContent_try :: "env \<Rightarrow> string \<Rightarrow> string \<Rightarrow> world \<Rightarrow> bool outcome" where
  "processTweetContent_try en tweetUrl outputDir w =
     then_do (extractIds tweetUrl w)
       (\<lambda>(userId, postId) w1.
          then_do (ensureOutputDir en outputDir userId w1)
            (\<lambda>userDir w2.
               if already_processed (fs w2) userDir postId then (Inr False, w2)
               else fetch_content en tweetUrl userDir postId w2))"

definition processTweetContent_catch :: "env \<Rightarrow> string \<Rightarrow> string \<Rightarrow> js_error \<Rightarrow> world \<Rightarrow> bool outcome" where
  "processTweetContent_catch en tweetUrl outputDir e w =
     (if is_rate_limit e then
        then_do (extractIds tweetUrl w)
          (\<lambda>(userId, postId) w1.
             then_do (ensureOutputDir en outputDir userId w1)
               (\<lambda>userDir w2.
                  then_do (writeFileSync en userDir (postId @ ''-rate-limited.txt'') w2)
                    (\<lambda>_ w3. (Inr False, w3))))
      else (Inr False, w))"

definition processTweetContent :: "env \<Rightarrow> string \<Rightarrow> string \<Rightarrow> world \<Rightarrow> bool outcome" where
  "processTweetContent en tweetUrl outputDir w =
     catch_do (processTweetContent_try en tweetUrl outputDir w)
              (processTweetContent_catch en tweetUrl outputDir)"

section \<open>The batch orchestrator (content_downloader: processMultipleTweets)\<close>

record stats =
  processedCount :: nat
  skippedCount :: nat
  rateLimitedCount :: nat

text \<open>
  The loop over the URLs, each item in its own \<open>try\<close>/\<open>catch\<close>. The page is the one
  handed in by the caller, as \<open>find_links\<close> does; the request blocking set up on it
  beforehand changes nothing that is modelled. The result carries the three counts that
  the summary prints.
\<close>

fun batch_loop :: "env \<Rightarrow> string \<Rightarrow> int \<Rightarrow> string list \<Rightarrow> stats \<Rightarrow> world \<Rightarrow> stats outcome" where
  "batch_loop en outputDir sleepMs [] c w = (Inr c, w)"
| "batch_loop en outputDir sleepMs (url # rest) c w =
     then_do
       (catch_do
          (then_do (processTweetContent en url outputDir w)
             (\<lambda>wasProcessed w1.
                (let c1 = (if wasProcessed then c\<lparr>processedCount := processedCount c + 1\<rparr>
                           else c\<lparr>skippedCount := skippedCount c + 1\<rparr>);
                     w2 = (if rest \<noteq> [] \<and> wasProcessed then emit (WaitFor sleepMs) w1 else w1)
                 in (Inr c1, w2))))
          (\<lambda>e w1.
             (let c1 = (if is_rate_limit e then c\<lparr>rateLimitedCount := rateLimitedCount c + 1\<rparr>
                        else c\<lparr>skippedCount := skippedCount c + 1\<rparr>);
                  w2 = (if rest \<noteq> [] then emit (WaitFor sleepMs) w1 else w1)
              in (Inr c1, w2))))
       (\<lambda>c1 w2. batch_loop en outputDir sleepMs rest c1 w2)"

definition processMultipleTweets :: "env \<Rightarrow> string list \<Rightarrow> string \<Rightarrow> int \<Rightarrow> world \<Rightarrow> stats outcome" where
  "processMultipleTweets en tweetUrls outputDir sleepMs w =
     catch_do
       (batch_loop en outputDir sleepMs tweetUrls
          \<lparr>processedCount = 0, skippedCount = 0, rateLimitedCount = 0\<rparr>
          (emit (BatchStart tweetUrls) w))
       (\<lambda>e w'. (Inr \<lparr>processedCount = 0, skippedCount = 0, rateLimitedCount = 0\<rparr>, w'))"

section \<open>Saving a simple post from the timeline (main.ts: saveSimpleContent)\<close>

fun split_slash :: "string \<Rightarrow> string list" where
  "split_slash [] = [Nil]"
| "split_slash (c # cs) =
     (if c = CHR ''/'' then [] # split_slash cs
      else (case split_slash cs of [] \<Rightarrow> [[c]] | p # ps \<Rightarrow> (c # p) # ps))"

definition axios_get :: "env \<Rightarrow> string \<Rightarrow> world \<Rightarrow> unit outcome" where
  "axios_get en url w =
     (case http_get en url of
        HttpOk \<Rightarrow> (Inr (), emit (HttpGet url) w)
      | HttpStatus n \<Rightarrow> (Inl download_error, emit (HttpGet url) w)
      | NetError e \<Rightarrow> (Inl e, emit (HttpGet url) w))"

fun save_images ::
    "env \<Rightarrow> string \<Rightarrow> string \<Rightarrow> nat \<Rightarrow> string list \<Rightarrow> world \<Rightarrow> unit outcome" where
  "save_images en postId userDir i [] w = (Inr (), w)"
| "save_images en postId userDir i (imageUrl # urls) w =
     then_do (axios_get en imageUrl w)
       (\<lambda>_ w1.
          (let imageExtension = (if js_includes imageUrl ''.png'' then ''png'' else ''jpg'') in
           then_do
             (writeFileSync en userDir (postId @ ''-'' @ show_nat (i + 1) @ ''.'' @ imageExtension) w1)
             (\<lambda>_ w2. save_images en postId userDir (i + 1) urls w2)))"

definition saveSimpleContent ::
    "env \<Rightarrow> string \<Rightarrow> string \<Rightarrow> string list \<Rightarrow> string \<Rightarrow> world \<Rightarrow> bool outcome" where
  "saveSimpleContent en href content_text imageUrls outputDir w =
     catch_do
       (let parts = split_slash href in
        if length parts < 4
        then (Inl \<lparr>err_code = None, message = ''Invalid tweet URL format: '' @ href\<rparr>, w)
        else
          (let userId = parts ! 1; postId = parts ! 3; userDir = path_join outputDir userId in
           then_do (if \<not> dir_exists (fs w) outputDir then mkdirSync en outputDir w else (Inr (), w))
             (\<lambda>_ w1.
                then_do (if \<not> dir_exists (fs w1) userDir then mkdirSync en userDir w1 else (Inr (), w1))
                  (\<lambda>_ w2.
                     then_do (if content_text \<noteq> [] then writeFileSync en userDir (postId @ ''.txt'') w2
                              else (Inr (), w2))
                       (\<lambda>_ w3.
                          then_do (save_images en postId userDir 0 imageUrls w3)
                            (\<lambda>_ w4. (Inr True, w4)))))))
       (\<lambda>e w'. (Inr False, w'))"

section \<open>Link discovery (main.ts: find_links)\<close>

record item =
  item_href :: string
  item_simple :: bool
  item_text :: string
  item_images :: "string list"

definition item_of :: "article \<Rightarrow> item option" where
  "item_of a =
     (case time_link_href a of
        None \<Rightarrow> None
      | Some href \<Rightarrow>
          if href = [] then None
          else Some \<lparr>item_href = href, item_simple = isSimpleTweet a,
                     item_text = (case tweet_text a of None \<Rightarrow> [] | Some t \<Rightarrow> t),
                     item_images = media_images a\<rparr>)"

definition query_articles :: "article list \<Rightarrow> item list" where
  "query_articles articles = List.map_filter item_of articles"

text \<open>
  The variables that \<open>extractLinks\<close> closes over. The two \<open>Set\<close>s are lists in
  insertion order; \<open>extracts\<close> counts the page queries made so far and selects what the
  page shows at the next one. The parameters \<open>max_id\<close> and \<open>limit\<close> are counts
  ("maximum number of ..., 0 for unlimited"): natural numbers.
\<close>

record scrape =
  uniqueLinks :: "string list"
  foundIds :: nat
  processedTweets :: "string list"
  extracts :: nat
  wld :: world

text \<open>
  What the loop of \<open>extractLinks\<close> does with an item whose link is new: record the link,
  count it and, for a simple post with download enabled, save it from the timeline and
  mark it processed, whatever \<open>saveSimpleContent\<close> returned.
\<close>

definition add_item :: "env \<Rightarrow> bool \<Rightarrow> string \<Rightarrow> item \<Rightarrow> scrape \<Rightarrow> scrape" where
  "add_item en download_content output_dir it s =
     (let s1 = s\<lparr>uniqueLinks := set_add (uniqueLinks s) (item_href it),
                 foundIds := foundIds s + 1\<rparr>
      in if download_content \<and> item_simple it then
           (let r = saveSimpleContent en (item_href it) (item_text it) (item_images it)
                      output_dir (emit (DirectSave (item_href it)) (wld s1))
            in s1\<lparr>wld := snd r,
                  processedTweets := set_add (processedTweets s1) (item_href it)\<rparr>)
         else s1)"

fun process_items :: "env \<Rightarrow> nat \<Rightarrow> bool \<Rightarrow> string \<Rightarrow> item list \<Rightarrow> scrape \<Rightarrow> int \<times> scrape" where
  "process_items en limit download_content output_dir [] s = (int (length (uniqueLinks s)), s)"
| "process_items en limit download_content output_dir (it # its) s =
     (if item_href it \<noteq> [] \<and> item_href it \<notin> set (uniqueLinks s) then
        (let s2 = add_item en download_content output_dir it s
         in if limit > 0 \<and> length (uniqueLinks s2) \<ge> limit then (- 1, s2)
            else process_items en limit download_content output_dir its s2)
      else process_items en limit download_content output_dir its s)"

definition extractLinks :: "env \<Rightarrow> nat \<Rightarrow> bool \<Rightarrow> string \<Rightarrow> scrape \<Rightarrow> int \<times> scrape" where
  "extractLinks en limit download_content output_dir s =
     process_items en limit download_content output_dir
       (query_articles (feed en (extracts s))) (s\<lparr>extracts := extracts s + 1\<rparr>)"

definition MAX_RETRIES :: nat where
  "MAX_RETRIES = 5"

definition RETRY_DELAY :: int where
  "RETRY_DELAY = 2000"

definition no_articles_error :: js_error where
  "no_articles_error =
     \<lparr>err_code = None, message = ''Could not find any articles after multiple attempts''\<rparr>"

definition no_content_error :: js_error where
  "no_content_error =
     \<lparr>err_code = None,
      message = ''Could not load Twitter content. The page might be unavailable or the account may not exist.''\<rparr>"

text \<open>
  The retry loop: \<open>n\<close> attempts are left and \<open>i\<close> is the loop index. A failed wait that
  is not the last one pauses and nudges the page down by 300 pixels. When the loop fails,
  a screenshot is attempted (its file name carries the clock reading, left out here) and
  the second error is raised in place of the first.
\<close>

fun wait_for_articles :: "env \<Rightarrow> nat \<Rightarrow> nat \<Rightarrow> world \<Rightarrow> unit outcome" where
  "wait_for_articles en 0 i w = (Inr (), w)"
| "wait_for_articles en (Suc n) i w =
     (if articles_appear en i then (Inr (), w)
      else if i = MAX_RETRIES - 1 then (Inl no_articles_error, w)
      else wait_for_articles en n (i + 1) (emit ScrollNudge (emit (WaitFor RETRY_DELAY) w)))"

definition initial_wait :: "env \<Rightarrow> world \<Rightarrow> unit outcome" where
  "initial_wait en w =
     catch_do (wait_for_articles en MAX_RETRIES 0 w)
       (\<lambda>articleError w'. (Inl no_content_error, emit (Screenshot ''error-screenshot.png'') w'))"

record loop_state =
  st :: scrape
  previousSize :: int
  sameCountIterations :: nat
  reachedBottom :: bool

definition loop_cond :: "nat \<Rightarrow> loop_state \<Rightarrow> bool" where
  "loop_cond max_id ls = (\<not> reachedBottom ls \<and> (max_id = 0 \<or> foundIds (st ls) < max_id))"

text \<open>One pass through the body of the \<open>while\<close> loop; the flag says that it left by \<open>break\<close>.\<close>

definition loop_body :: "env \<Rightarrow> nat \<Rightarrow> bool \<Rightarrow> string \<Rightarrow> loop_state \<Rightarrow> bool \<times> loop_state" where
  "loop_body en limit download_content output_dir ls =
     (let s1 = (st ls)\<lparr>wld := emit (WaitFor 1500) (emit ScrollViewport (wld (st ls)))\<rparr>;
          r = extractLinks en limit download_content output_dir s1;
          currentSize = fst r
      in if currentSize = - 1 then (True, ls\<lparr>st := snd r\<rparr>)
         else if currentSize = previousSize ls then
           (let n = sameCountIterations ls + 1 in
            (False, ls\<lparr>st := snd r, sameCountIterations := n,
                       reachedBottom := (if n \<ge> 3 then True else reachedBottom ls)\<rparr>))
         else (False, ls\<lparr>st := snd r, sameCountIterations := 0, previousSize := currentSize\<rparr>))"

text \<open>
  The \<open>while\<close> loop. Nothing bounds the number of its cycles, so it is a partial
  function: \<open>None\<close> stands for a loop that never ends.
\<close>

partial_function (option) scroll_loop ::
    "env \<Rightarrow> nat \<Rightarrow> nat \<Rightarrow> bool \<Rightarrow> string \<Rightarrow> loop_state \<Rightarrow> loop_state option" where
  "scroll_loop en max_id limit download_content output_dir ls =
     (if loop_cond max_id ls then
        (let r = loop_body en limit download_content output_dir ls in
         if fst r then Some (snd r)
         else scroll_loop en max_id limit download_content output_dir (snd r))
      else Some ls)"

declare scroll_loop.simps [code]

definition full_url :: "string \<Rightarrow> string" where
  "full_url href = ''https://x.com'' @ href"

fun remove_first :: "string \<Rightarrow> string \<Rightarrow> string" where
  "remove_first [] p = []"
| "remove_first (c # cs) p =
     (if startsWith (c # cs) p then drop (length p) (c # cs) else c # remove_first cs p)"

text \<open>
  The part of \<open>find_links\<close> after the loop: the cut to \<open>limit\<close>, then the download
  phase on the links that were not saved from the timeline.
\<close>

definition finalLinks :: "nat \<Rightarrow> string list \<Rightarrow> string list" where
  "finalLinks limit resultLinks =
     (if limit > 0 \<and> length resultLinks > limit then take limit resultLinks else resultLinks)"

definition remainingLinks :: "string list \<Rightarrow> string list \<Rightarrow> string list" where
  "remainingLinks links processed =
     filter (\<lambda>link. remove_first link ''https://x.com'' \<notin> set processed) links"

definition finish :: "env \<Rightarrow> string \<Rightarrow> nat \<Rightarrow> bool \<Rightarrow> string \<Rightarrow> scrape \<Rightarrow> string list outcome" where
  "finish en initial_url limit download_content output_dir s =
     (let resultLinks = map full_url (uniqueLinks s);
          links = finalLinks limit resultLinks
      in if download_content \<and> links \<noteq> [] then
           then_do
             (if remainingLinks links (processedTweets s) \<noteq> []
              then then_do
                     (processMultipleTweets en (remainingLinks links (processedTweets s))
                        output_dir 5000 (wld s))
                     (\<lambda>_ w. (Inr (), w))
              else (Inr (), wld s))
             (\<lambda>_ w. (Inr links, emit (Goto initial_url) w))
         else (Inr links, wld s))"

definition close_page :: "'a outcome \<Rightarrow> 'a outcome" where
  "close_page r = (fst r, emit ClosePage (snd r))"

text \<open>
  The \<open>try\<close> statement of \<open>find_links\<close>, on the page that was opened and on a disk
  \<open>fs0\<close>: the links returned or the error raised, with the world left behind; \<open>None\<close>
  when the scroll loop never ends. The \<open>catch\<close> clause raises again what it caught, and
  the page is closed on every way out (\<open>finally\<close>).
\<close>

definition find_links_page ::
    "env \<Rightarrow> string \<Rightarrow> nat \<Rightarrow> nat \<Rightarrow> bool \<Rightarrow> string \<Rightarrow> filesystem \<Rightarrow> string list outcome option" where
  "find_links_page en initial_url max_id limit download_content output_dir fs0 =
     (case initial_wait en (emit (Goto initial_url) \<lparr>fs = fs0, trace = []\<rparr>) of
        (Inl e, w1) \<Rightarrow> Some (close_page (Inl e, w1))
      | (Inr _, w1) \<Rightarrow>
          (let r = extractLinks en limit download_content output_dir
                     \<lparr>uniqueLinks = [], foundIds = 0, processedTweets = [], extracts = 0, wld = w1\<rparr>
           in if fst r = - 1
              then Some (close_page (Inr (map full_url (uniqueLinks (snd r))), wld (snd r)))
              else (case scroll_loop en max_id limit download_content output_dir
                           \<lparr>st = snd r, previousSize = 0, sameCountIterations = 0,
                            reachedBottom = False\<rparr> of
                      None \<Rightarrow> None
                    | Some ls \<Rightarrow>
                        Some (close_page
                                (finish en initial_url limit download_content output_dir (st ls))))))"


definition get_browser_with_session :: "env \<Rightarrow> world \<Rightarrow> unit outcome" where
  "get_browser_with_session en w =
     (case session_fault en of Some e \<Rightarrow> (Inl e, w) | None \<Rightarrow> (Inr (), w))"

definition newPage :: "env \<Rightarrow> world \<Rightarrow> unit outcome" where
  "newPage en w = (case page_fault en of Some e \<Rightarrow> (Inl e, w) | None \<Rightarrow> (Inr (), w))"

definition find_links ::
    "env \<Rightarrow> string \<Rightarrow> nat \<Rightarrow> nat \<Rightarrow> bool \<Rightarrow> string \<Rightarrow> filesystem \<Rightarrow> string list outcome option" where
  "find_links en initial_url max_id limit download_content output_dir fs0 =
     (case then_do (get_browser_with_session en \<lparr>fs = fs0, trace = []\<rparr>) (\<lambda>_ w. newPage en w) of
        (Inl e, w) \<Rightarrow> Some (Inl e, w)
      | (Inr _, w) \<Rightarrow> find_links_page en initial_url max_id limit download_content output_dir fs0)"

section \<open>Notions used to state the properties\<close>

text \<open>
  The two ways in which \<open>hasShowMore\<close> can hold: through one of its three selector
  checks, or through the text of a \<open>span\<close>.
\<close>

definition show_more_by_structure :: "article \<Rightarrow> bool" where
  "show_more_by_structure a =
     (plain_button a \<or> list_ex span_auto_plain (spans a) \<or> collapsed_link a)"

definition show_more_by_text :: "article \<Rightarrow> bool" where
  "show_more_by_text a = list_ex span_says_more (spans a)"

text \<open>
  A key has a resolution when its area is a number in the exact range; \<open>pixels\<close> is
  that area.
\<close>

definition has_resolution :: "string \<Rightarrow> bool" where
  "has_resolution key = (case area key of Num n \<Rightarrow> True | _ \<Rightarrow> False)"

definition pixels :: "string \<Rightarrow> int" where
  "pixels key = (case area key of Num n \<Rightarrow> n | _ \<Rightarrow> 0)"

text \<open>
  Segment addresses: two video segments with a resolution in the path, one without, and an
  audio segment with its bitrate in the path.
\<close>

definition seg_720 :: string where
  "seg_720 = ''https://video.twimg.com/vid/1280x720/a.m4s''"

definition seg_360 :: string where
  "seg_360 = ''https://video.twimg.com/vid/640x360/a.m4s''"

definition seg_plain :: string where
  "seg_plain = ''https://video.twimg.com/vid/a.m4s''"

definition seg_audio :: string where
  "seg_audio = ''https://video.twimg.com/aud/128000/a.m4s''"

text \<open>
  An environment where nothing fails and each post's page shows text only, for a given
  sequence of timeline renderings; one post address; two starting disks.
\<close>

definition quiet_view :: tweet_view where
  "quiet_view = \<lparr>text_ready = True, more_buttons = 0, images_ready = True, image_srcs = [],
                  video_ready = True, video_present = False, screenshot_ok = False\<rparr>"

definition env_of_feed :: "(nat \<Rightarrow> article list) \<Rightarrow> env" where
  "env_of_feed f =
     \<lparr>session_fault = None, page_fault = None,
      fs_fault = (\<lambda>_. None), http_get = (\<lambda>_. HttpOk), articles_appear = (\<lambda>_. True),
      feed = f, tweet_page = (\<lambda>_. quiet_view)\<rparr>"

definition post_url :: string where
  "post_url = ''https://x.com/u/status/1''"

definition empty_world :: world where
  "empty_world = \<lparr>fs = [], trace = []\<rparr>"

definition world_with :: "string list \<Rightarrow> world" where
  "world_with names = \<lparr>fs = [(''out/u'', names)], trace = []\<rparr>"

text \<open>\<open>grows w w'\<close>: every file of \<open>w\<close> is still there in \<open>w'\<close>.\<close>

definition grows :: "world \<Rightarrow> world \<Rightarrow> bool" where
  "grows w w' = (\<forall>d n. file_exists (fs w) d n \<longrightarrow> file_exists (fs w') d n)"

text \<open>
  A post with a video player, and a timeline that shows nothing at the first query and
  that post from the second query on.
\<close>

definition video_post :: article where
  "video_post = bare_article\<lparr>time_link_href := Some ''/u/status/2'', video_player := True\<rparr>"

definition late_feed :: "nat \<Rightarrow> article list" where
  "late_feed k = (if k = 0 then [] else [video_post])"

text \<open>The number of URLs that the three counts of a summary account for.\<close>

definition total_count :: "stats \<Rightarrow> nat" where
  "total_count c = processedCount c + skippedCount c + rateLimitedCount c"






definition io_error_429 :: js_error where
  "io_error_429 = \<lparr>err_code = None, message = ''EIO: i/o error, open out/u/429.txt''\<rparr>"

definition env_text_fault :: env where
  "env_text_fault =
     (env_of_feed (\<lambda>_. []))
       \<lparr>fs_fault := (\<lambda>p. if p = ''out/u/429.txt'' then Some io_error_429 else None)\<rparr>"

definition url_429 :: string where
  "url_429 = ''https://x.com/u/status/429''"

text \<open>
  Two invariants of the link set: \<open>below_limit\<close> holds whenever an extraction starts,
  \<open>within_limit\<close> when discovery ends. \<open>scrolled\<close> is the state after the scroll and
  the pause of one loop cycle.
\<close>

definition below_limit :: "nat \<Rightarrow> scrape \<Rightarrow> bool" where
  "below_limit limit s =
     (distinct (uniqueLinks s) \<and> (limit > 0 \<longrightarrow> length (uniqueLinks s) < limit))"

definition within_limit :: "nat \<Rightarrow> scrape \<Rightarrow> bool" where
  "within_limit limit s =
     (distinct (uniqueLinks s) \<and> (limit > 0 \<longrightarrow> length (uniqueLinks s) \<le> limit))"

definition scrolled :: "scrape \<Rightarrow> scrape" where
  "scrolled s = s\<lparr>wld := emit (WaitFor 1500) (emit ScrollViewport (wld s))\<rparr>"

text \<open>
  Events other than the announcement of an inline save and the hand-over of a list are
  \<open>plain\<close>; \<open>adds_plain w w'\<close> says that \<open>w'\<close> continues the trace of \<open>w\<close> with plain
  events only.
\<close>

fun plain :: "event \<Rightarrow> bool" where
  "plain (DirectSave h) = False"
| "plain (BatchStart urls) = False"
| "plain ev = True"

definition adds_plain :: "world \<Rightarrow> world \<Rightarrow> bool" where
  "adds_plain w w' = (\<exists>evs. trace w' = trace w @ evs \<and> list_all plain evs)"

text \<open>
  During discovery every announced inline save is in the processed set and nothing has
  been handed over yet (\<open>saves_marked\<close>); at the end no list handed over holds the
  address of a post whose inline save was announced (\<open>handover_ok\<close>).
\<close>

definition saves_marked :: "scrape \<Rightarrow> bool" where
  "saves_marked s =
     ((\<forall>h. DirectSave h \<in> set (trace (wld s)) \<longrightarrow> h \<in> set (processedTweets s)) \<and>
      (\<forall>urls. BatchStart urls \<notin> set (trace (wld s))))"

definition handover_ok :: "world \<Rightarrow> bool" where
  "handover_ok w =
     (\<forall>h urls. DirectSave h \<in> set (trace w) \<longrightarrow> BatchStart urls \<in> set (trace w) \<longrightarrow>
                full_url h \<notin> set urls)"

text \<open>A simple post without text or images, and a third post.\<close>

definition silent_post :: article where
  "silent_post = bare_article\<lparr>tweet_text := None\<rparr>"

definition third_post :: article where
  "third_post = bare_article\<lparr>time_link_href := Some ''/u/status/3''\<rparr>"

text \<open>
  The timeline has settled at query \<open>K\<close> when every post shown from then on was shown
  before; \<open>seen\<close> says that the link set holds every post shown so far, \<open>quiet_from\<close>
  that no later query shows a post outside the link set. \<open>next_cycle\<close> is the loop state
  after one cycle that finds nothing new.
\<close>

definition settles :: "env \<Rightarrow> nat \<Rightarrow> bool" where
  "settles en K =
     (\<forall>k\<ge>K. \<forall>it\<in>set (query_articles (feed en k)).
        \<exists>j<K. item_href it \<in> item_href ` set (query_articles (feed en j)))"

definition seen :: "env \<Rightarrow> scrape \<Rightarrow> bool" where
  "seen en s =
     (\<forall>j<extracts s. \<forall>it\<in>set (query_articles (feed en j)). item_href it \<in> set (uniqueLinks s))"

definition quiet_from :: "env \<Rightarrow> scrape \<Rightarrow> bool" where
  "quiet_from en s =
     (\<forall>k\<ge>extracts s. \<forall>it\<in>set (query_articles (feed en k)). item_href it \<in> set (uniqueLinks s))"

definition next_cycle :: "loop_state \<Rightarrow> loop_state" where
  "next_cycle ls =
     (let s = (scrolled (st ls))\<lparr>extracts := extracts (st ls) + 1\<rparr> in
      if int (length (uniqueLinks (st ls))) = previousSize ls
      then ls\<lparr>st := s, sameCountIterations := sameCountIterations ls + 1,
              reachedBottom := (if sameCountIterations ls + 1 \<ge> 3 then True else reachedBottom ls)\<rparr>
      else ls\<lparr>st := s, sameCountIterations := 0,
              previousSize := int (length (uniqueLinks (st ls)))\<rparr>)"

section \<open>Properties of the classification\<close>

lemma span_auto_plain_blank: "span_auto_plain (blank_span s) = span_auto_plain s"
  by (simp add: span_auto_plain_def blank_span_def)

lemma list_ex_auto_plain_blank:
  "list_ex span_auto_plain (map blank_span ss) = list_ex span_auto_plain ss"
  by (induction ss) (simp_all add: span_auto_plain_blank)

lemma structure_of_fields:
  "video_player (structure_of a) = video_player a"
  "card_poll (structure_of a) = card_poll a"
  "card_wrapper (structure_of a) = card_wrapper a"
  "plain_button (structure_of a) = plain_button a"
  "collapsed_link (structure_of a) = collapsed_link a"
  "spans (structure_of a) = map blank_span (spans a)"
  by (simp_all add: structure_of_def)

lemma structural_flags_of_structure:
  "hasVideo (structure_of a) = hasVideo a"
  "hasPoll (structure_of a) = hasPoll a"
  "hasCard (structure_of a) = hasCard a"
  "show_more_by_structure (structure_of a) = show_more_by_structure a"
  by (simp_all add: hasVideo_def hasPoll_def hasCard_def show_more_by_structure_def
        structure_of_fields list_ex_auto_plain_blank)


text \<open>
  Claim C1, as the code has it. A post is simple exactly when it has none of the four
  markers. The video, poll and card markers, and three of the four checks behind the
  truncation marker, depend on the element structure alone; the truncation marker also
  holds when the text of some \<open>span\<close> contains "Show more" or one of its two Chinese
  forms. The item that the discovery loop receives carries this classification.
\<close>

theorem classification_by_markers:
  "(isSimpleTweet a \<longleftrightarrow> \<not> (hasVideo a \<or> hasPoll a \<or> hasCard a \<or> hasShowMore a)) \<and>
   (hasShowMore a \<longleftrightarrow> show_more_by_structure a \<or> show_more_by_text a) \<and>
   (structure_of a = structure_of b \<longrightarrow>
      hasVideo a = hasVideo b \<and> hasPoll a = hasPoll b \<and> hasCard a = hasCard b \<and>
      show_more_by_structure a = show_more_by_structure b) \<and>
   (item_of a = Some it \<longrightarrow> item_simple it = isSimpleTweet a)"
proof -
  have 1: "isSimpleTweet a \<longleftrightarrow> \<not> (hasVideo a \<or> hasPoll a \<or> hasCard a \<or> hasShowMore a)"
    by (simp add: isSimpleTweet_def)
  have 2: "hasShowMore a \<longleftrightarrow> show_more_by_structure a \<or> show_more_by_text a"
    by (auto simp add: hasShowMore_def show_more_by_structure_def show_more_by_text_def)
  have 3: "hasVideo a = hasVideo b \<and> hasPoll a = hasPoll b \<and> hasCard a = hasCard b \<and>
      show_more_by_structure a = show_more_by_structure b" if "structure_of a = structure_of b"
    using structural_flags_of_structure [of a] structural_flags_of_structure [of b] that
    by simp
  have 4: "item_simple it = isSimpleTweet a" if "item_of a = Some it"
    using that by (auto simp add: item_of_def split: option.splits if_splits)
  from 1 2 3 4 show ?thesis by blast
qed

theorem classification_by_markers_witness:
  "structure_of article_more = structure_of article_plain \<and>
   item_of article_plain = Some \<lparr>item_href = ''/u/status/1'', item_simple = True,
                                 item_text = ''hello'', item_images = []\<rparr> \<and>
   isSimpleTweet article_plain \<and>
   hasVideo article_more = hasVideo article_plain \<and>
   show_more_by_structure article_more = show_more_by_structure article_plain"
proof -
  have s: "structure_of article_more = structure_of article_plain"
    by (simp add: structure_of_def article_more_def article_plain_def bare_article_def blank_span_def)
  have simple: "isSimpleTweet article_plain"
    by (simp add: article_plain_def bare_article_def isSimpleTweet_def hasVideo_def hasPoll_def
          hasCard_def hasShowMore_def span_auto_plain_def span_says_more_def show_more_en_def
          show_more_zh_def view_more_zh_def)
  have i: "item_of article_plain = Some \<lparr>item_href = ''/u/status/1'', item_simple = True,
                                 item_text = ''hello'', item_images = []\<rparr>"
    using simple by (simp add: item_of_def article_plain_def bare_article_def)
  from s i simple
    classification_by_markers [of article_more article_plain
      "\<lparr>item_href = ''/u/status/1'', item_simple = True, item_text = ''hello'', item_images = []\<rparr>"]
  show ?thesis by simp
qed


text \<open>
  Claim C1 as stated fails: two posts with the same element structure, one whose
  \<open>span\<close> reads "Show more" and one whose \<open>span\<close> reads "Good day", get different
  truncation markers. The marker is read from text content.
\<close>

theorem text_decides_truncation_counterexample:
  "\<not> (structure_of article_more = structure_of article_plain \<longrightarrow>
        hasShowMore article_more = hasShowMore article_plain)"
  by (simp add: structure_of_def article_more_def article_plain_def bare_article_def blank_span_def
        hasShowMore_def span_auto_plain_def span_says_more_def show_more_en_def
        show_more_zh_def view_more_zh_def)


section \<open>Properties of the quality grouping and selection\<close>

lemma map_of_push_group:
  "map_of (push_group g q u) k =
     (if k = q then Some ((case map_of g q of None \<Rightarrow> [] | Some us \<Rightarrow> us) @ [u]) else map_of g k)"
  by (induction g q u rule: push_group.induct) auto

lemma keys_push_group:
  "map fst (push_group g q u) = (if q \<in> fst ` set g then map fst g else map fst g @ [q])"
  by (induction g q u rule: push_group.induct) auto

lemma distinct_keys_push_group:
  "distinct (map fst g) \<Longrightarrow> distinct (map fst (push_group g q u))"
  by (simp add: keys_push_group)

lemma group_fold_keys:
  "distinct (map fst acc) \<Longrightarrow>
   distinct (map fst (foldl (\<lambda>g url. push_group g (quality url) url) acc segs))"
  by (induction segs arbitrary: acc) (simp_all add: distinct_keys_push_group)

lemma group_fold_map_of:
  "map_of (foldl (\<lambda>g url. push_group g (quality url) url) acc segs) q =
     (if map_of acc q = None \<and> q \<notin> quality ` set segs then None
      else Some ((case map_of acc q of None \<Rightarrow> [] | Some us \<Rightarrow> us) @ filter (\<lambda>u. quality u = q) segs))"
proof (induction segs arbitrary: acc)
  case Nil
  then show ?case by (simp split: option.splits)
next
  case (Cons u segs)
  show ?case
    by (simp add: Cons.IH map_of_push_group split: option.splits)
qed

lemma group_fold_first_key:
  "acc \<noteq> [] \<Longrightarrow> hd (map fst (foldl (\<lambda>g url. push_group g (quality url) url) acc segs)) = hd (map fst acc)"
proof (induction segs arbitrary: acc)
  case Nil
  then show ?case by simp
next
  case (Cons u segs)
  have "push_group acc (quality u) u \<noteq> []"
    using Cons.prems by (cases acc) (auto split: if_splits)
  moreover have "hd (map fst (push_group acc (quality u) u)) = hd (map fst acc)"
    using Cons.prems by (cases acc) (auto)
  ultimately show ?case using Cons.IH by simp
qed

text \<open>
  The groups partition the segment addresses by their quality key, each group in capture
  order, and the audio key is the key of the first captured audio segment.
\<close>

lemma groups_partition_segments:
  "distinct (object_keys (groupSegmentsByQuality segs)) \<and>
   map_of (groupSegmentsByQuality segs) q =
     (if q \<in> quality ` set segs then Some (filter (\<lambda>u. quality u = q) segs) else None)"
  using group_fold_keys [of "[]" segs] group_fold_map_of [of "[]" segs q]
  by (simp add: object_keys_def groupSegmentsByQuality_def)

lemma first_audio_group:
  assumes ne: "segs \<noteq> []"
  shows "bestAudioQuality (groupSegmentsByQuality segs) = Some (quality (hd segs))"
proof -
  obtain u us where segs: "segs = u # us" using ne by (cases segs) auto
  let ?g = "groupSegmentsByQuality segs"
  have h: "hd (map fst ?g) = quality u"
    using group_fold_first_key [of "push_group [] (quality u) u" us]
    by (simp add: segs groupSegmentsByQuality_def)
  have "map_of ?g (quality u) \<noteq> None"
    using groups_partition_segments [of segs "quality u"] by (simp add: segs)
  then have "map fst ?g \<noteq> []" by (cases ?g) auto
  with h show ?thesis
    by (cases "map fst ?g") (simp_all add: bestAudioQuality_def object_keys_def segs)
qed

lemma quality_examples:
  "quality seg_720 = ''1280x720''" "quality seg_360 = ''640x360''" "quality seg_plain = ''unknown''"
  "quality seg_audio = ''128kbps''"
  by (simp_all add: seg_720_def seg_360_def seg_plain_def seg_audio_def quality_def res_match_at_def
        bitrate_match_at_def is_digit_def)

lemma area_examples:
  "area ''1280x720'' = Num 921600" "area ''640x360'' = Num 230400" "area ''unknown'' = NaN"
  by (simp_all add: area_def js_Number_def is_digit_def nat_of_digits_def digit_val_def
        in_range_def MAX_SAFE_INTEGER_def)

lemma binary_search_done:
  "\<not> left < right \<Longrightarrow> binary_search pivot workArray left right = left"
  by (subst binary_search.simps) simp

lemma binary_search_step:
  "left < right \<Longrightarrow>
   binary_search pivot workArray left right =
     (if SortCompare pivot (workArray ! (left + (right - left) div 2)) < 0
      then binary_search pivot workArray left (left + (right - left) div 2)
      else binary_search pivot workArray (left + (right - left) div 2 + 1) right)"
  by (subst binary_search.simps) (simp add: Let_def)

lemma small_areas:
  "area ''1x1'' = Num 1" "area ''2x2'' = Num 4" "area ''3x3'' = Num 9"
  by (simp_all add: area_def js_Number_def is_digit_def nat_of_digits_def digit_val_def
        in_range_def MAX_SAFE_INTEGER_def)

lemma comparisons:
  "SortCompare ''640x360'' ''1280x720'' = 691200"
  "SortCompare ''1280x720'' ''640x360'' = - 691200"
  "SortCompare ''640x360'' ''unknown'' = 0"
  "SortCompare ''unknown'' ''640x360'' = 0"
  "SortCompare ''2x2'' ''1x1'' = - 3"
  "SortCompare ''1x1'' ''unknown'' = 0"
  "SortCompare ''unknown'' ''1x1'' = 0"
  "SortCompare ''unknown'' ''2x2'' = 0"
  "SortCompare ''2x2'' ''unknown'' = 0"
  "SortCompare ''3x3'' ''1x1'' = - 8"
  "SortCompare ''3x3'' ''2x2'' = - 5"
  "SortCompare ''3x3'' ''unknown'' = 0"
  by (simp_all add: SortCompare_def compare_area_def in_range_def MAX_SAFE_INTEGER_def
        small_areas area_examples)

text \<open>
  Where the comparator returns \<open>NaN\<close> for some pairs only, the order depends on the
  pairs that the engine compares: captured third of four, the key \<open>unknown\<close> ends up
  last; captured first, it stays first.
\<close>

lemma first_run_examples:
  "CountAndMakeRun [''1x1'', ''2x2'', ''unknown'', ''3x3''] =
     ([''2x2'', ''1x1''], [''unknown'', ''3x3''])"
  "CountAndMakeRun [''unknown'', ''1x1'', ''2x2'', ''3x3''] =
     ([''unknown'', ''1x1''], [''2x2'', ''3x3''])"
  by (simp_all add: CountAndMakeRun_def comparisons)

lemma binary_search_examples:
  "binary_search ''unknown'' [''2x2'', ''1x1''] 0 2 = 2"
  "binary_search ''3x3'' [''2x2'', ''1x1'', ''unknown''] 0 3 = 0"
  "binary_search ''2x2'' [''unknown'', ''1x1''] 0 2 = 1"
  "binary_search ''3x3'' [''unknown'', ''2x2'', ''1x1''] 0 3 = 1"
  by (simp_all add: binary_search_done binary_search_step comparisons)

lemma insertion_examples:
  "BinaryInsertionSort [''2x2'', ''1x1''] [''unknown'', ''3x3''] =
     [''3x3'', ''2x2'', ''1x1'', ''unknown'']"
  "BinaryInsertionSort [''unknown'', ''1x1''] [''2x2'', ''3x3''] =
     [''unknown'', ''3x3'', ''2x2'', ''1x1'']"
  by (simp_all add: Let_def binary_search_examples [unfolded numeral_2_eq_2 numeral_3_eq_3])

lemma sort_with_unparsed_key:
  "js_sort [''1x1'', ''2x2'', ''unknown'', ''3x3''] = Some [''3x3'', ''2x2'', ''1x1'', ''unknown'']"
  "js_sort [''unknown'', ''1x1'', ''2x2'', ''3x3''] = Some [''unknown'', ''3x3'', ''2x2'', ''1x1'']"
  by (simp_all add: js_sort_def ArrayTimSortImpl_def first_run_examples insertion_examples
        small_areas area_examples del: BinaryInsertionSort.simps)

text \<open>
  With the two resolutions of the specification's example, the 1280x720 group is chosen,
  in either capture order.
\<close>

lemma larger_area_selected:
  "bestVideoSegments [seg_360, seg_720] = Some [seg_720]"
  "bestVideoSegments [seg_720, seg_360] = Some [seg_720]"
  by (simp_all add: bestVideoSegments_def bestVideoQuality_def groupSegmentsByQuality_def
        quality_examples object_keys_def area_examples js_sort_def ArrayTimSortImpl_def
        CountAndMakeRun_def comparisons)

text \<open>
  Claim C8 fails on the code where it lets a group without a readable resolution sort
  last. The video segments captured are one without a resolution in its address, then one
  of the 640x360 rendition. The comparison of \<open>unknown\<close> with \<open>640x360\<close> is \<open>NaN\<close>, which
  \<open>sort\<close> reads as a tie: the keys stay in capture order and the group \<open>unknown\<close> is
  downloaded, not the only group with a resolution.
\<close>

theorem unparsed_group_selected:
  "groupSegmentsByQuality [seg_plain, seg_360] =
     [(''unknown'', [seg_plain]), (''640x360'', [seg_360])] \<and>
   area ''unknown'' = NaN \<and> area ''640x360'' = Num 230400 \<and>
   compare_area ''unknown'' ''640x360'' = NaN \<and> compare_area ''640x360'' ''unknown'' = NaN \<and>
   js_sort [''unknown'', ''640x360''] = Some [''unknown'', ''640x360''] \<and>
   bestVideoQuality (groupSegmentsByQuality [seg_plain, seg_360]) = Some ''unknown'' \<and>
   bestVideoSegments [seg_plain, seg_360] = Some [seg_plain]"
  by (simp add: bestVideoSegments_def bestVideoQuality_def groupSegmentsByQuality_def
        quality_examples object_keys_def area_examples js_sort_def ArrayTimSortImpl_def
        CountAndMakeRun_def comparisons compare_area_def)

section \<open>Properties of the resume check\<close>

lemma startsWith_take: "startsWith s t \<longleftrightarrow> take (length t) s = t"
  by (induction s t rule: startsWith.induct) auto

lemma startsWith_append: "startsWith (t @ r) t"
  by (simp add: startsWith_take)

lemma startsWith_trans: "startsWith s t \<Longrightarrow> startsWith t u \<Longrightarrow> startsWith s u"
  by (metis append_eq_conv_conj append.assoc startsWith_take)

lemma dir_exists_iff:
  "dir_exists f d \<longleftrightarrow> (\<exists>(p, es)\<in>set f. p = d \<or> startsWith p (d @ ''/''))"
  by (simp add: dir_exists_def list_ex_iff)

lemma dir_exists_parent: "dir_exists f (path_join a b) \<Longrightarrow> dir_exists f a"
proof -
  assume "dir_exists f (path_join a b)"
  then obtain p es where m: "(p, es) \<in> set f"
      and c: "p = path_join a b \<or> startsWith p (path_join a b @ ''/'')"
    by (auto simp: dir_exists_iff)
  have "startsWith (path_join a b) (a @ ''/'')"
    using startsWith_append [of "a @ ''/''" b] by (simp add: path_join_def)
  moreover have "startsWith (path_join a b @ ''/'') (a @ ''/'')"
    using startsWith_append [of "a @ ''/''" "b @ ''/''"] by (simp add: path_join_def)
  ultimately have "startsWith p (a @ ''/'')"
    using c startsWith_trans by blast
  with m show ?thesis by (auto simp: dir_exists_iff)
qed

lemma readdir_dir_exists: "name \<in> set (readdir f d) \<Longrightarrow> dir_exists f d"
proof -
  assume "name \<in> set (readdir f d)"
  then obtain es where "map_of f d = Some es"
    by (cases "map_of f d") (auto simp: readdir_def)
  then have "(d, es) \<in> set f" by (rule map_of_SomeD)
  then show ?thesis by (auto simp: dir_exists_iff)
qed

lemma readdir_put_dir: "readdir (put_dir f d es) d' = (if d' = d then es else readdir f d')"
  by (induction f d es rule: put_dir.induct) (auto simp: readdir_def)

lemma keys_put_dir: "fst ` set (put_dir f d es) = insert d (fst ` set f)"
  by (induction f d es rule: put_dir.induct) auto

lemma dir_exists_put_dir: "dir_exists f d' \<Longrightarrow> dir_exists (put_dir f d es) d'"
proof -
  assume "dir_exists f d'"
  then obtain p ps where m: "(p, ps) \<in> set f" and c: "p = d' \<or> startsWith p (d' @ ''/'')"
    by (auto simp: dir_exists_iff)
  from m have "p \<in> fst ` set (put_dir f d es)"
    by (simp add: keys_put_dir) (metis fst_conv image_eqI)
  then obtain ps' where "(p, ps') \<in> set (put_dir f d es)" by auto
  with c show ?thesis by (auto simp: dir_exists_iff)
qed

lemma dir_exists_put_dir_self: "dir_exists (put_dir f d es) d"
proof -
  have "d \<in> fst ` set (put_dir f d es)" by (simp add: keys_put_dir)
  then obtain ps where "(d, ps) \<in> set (put_dir f d es)" by auto
  then show ?thesis by (auto simp: dir_exists_iff)
qed

lemma file_exists_add_entry:
  "file_exists (add_entry f d name) d' n \<longleftrightarrow> file_exists f d' n \<or> (d' = d \<and> n = name)"
  by (auto simp: file_exists_def add_entry_def readdir_put_dir set_add_def)

lemma already_processed_entry:
  "already_processed f d postId \<Longrightarrow> \<exists>name. name \<in> set (readdir f d)"
  by (auto simp: already_processed_def hasTextFile_def hasImageFiles_def hasVideoFile_def
        hasVideoInfo_def hasVideoError_def hasScreenshot_def file_exists_def list_ex_iff)

lemma ensureOutputDir_existing:
  "dir_exists (fs w) (path_join outputDir userId) \<Longrightarrow>
   ensureOutputDir en outputDir userId w = (Inr (path_join outputDir userId), w)"
  using dir_exists_parent [of "fs w" outputDir userId]
  by (simp add: ensureOutputDir_def then_do_def)

lemma skip_already_processed:
  assumes ids: "extractIds_search tweetUrl = Some (userId, postId)"
      and dn: "already_processed (fs w) (path_join outputDir userId) postId"
  shows "processTweetContent en tweetUrl outputDir w = (Inr False, w)"
proof -
  from dn obtain name where "name \<in> set (readdir (fs w) (path_join outputDir userId))"
    using already_processed_entry by blast
  then have "dir_exists (fs w) (path_join outputDir userId)"
    by (rule readdir_dir_exists)
  then show ?thesis
    using ids dn
    by (simp add: processTweetContent_def processTweetContent_try_def extractIds_def
          then_do_def catch_do_def ensureOutputDir_existing)
qed


lemma grows_refl: "grows w w"
  by (simp add: grows_def)

lemma grows_trans: "grows w w1 \<Longrightarrow> grows w1 w2 \<Longrightarrow> grows w w2"
  by (simp add: grows_def)

lemma fs_emit: "fs (emit ev w) = fs w"
  by (simp add: emit_def)

lemma grows_emit: "grows w (emit ev w)"
  by (simp add: grows_def fs_emit)

lemma grows_add_entry: "grows w (w\<lparr>fs := add_entry (fs w) d name\<rparr>)"
  by (simp add: grows_def file_exists_add_entry)

lemma then_do_Inr:
  "then_do r f = (Inr x, w') \<Longrightarrow> \<exists>a w1. r = (Inr a, w1) \<and> f a w1 = (Inr x, w')"
  by (cases r) (auto simp: then_do_def split: sum.splits)

lemma writeFileSync_grows: "writeFileSync en d name w = (r, w') \<Longrightarrow> grows w w'"
  by (auto simp: writeFileSync_def grows_def fs_emit file_exists_add_entry
        split: option.splits if_splits)

lemma writeFileSync_written:
  "writeFileSync en d name w = (Inr u, w') \<Longrightarrow> file_exists (fs w') d name"
  by (auto simp: writeFileSync_def fs_emit file_exists_add_entry split: option.splits if_splits)

lemma downloadFile_grows: "downloadFile en url d name w = (r, w') \<Longrightarrow> grows w w'"
  by (auto simp: downloadFile_def grows_def fs_emit file_exists_add_entry split: http_result.splits)

lemma download_images_grows:
  "download_images en postId d i urls w = (r, w') \<Longrightarrow> grows w w'"
proof (induction urls arbitrary: i w)
  case Nil
  then show ?case by (simp add: grows_refl)
next
  case (Cons url urls)
  obtain r1 w1 where d: "downloadFile en url d (postId @ ''-'' @ show_nat (i + 1) @ ''.'' @ image_extension url) w = (r1, w1)"
    by (cases "downloadFile en url d (postId @ ''-'' @ show_nat (i + 1) @ ''.'' @ image_extension url) w") auto
  have g1: "grows w w1" using d by (rule downloadFile_grows)
  show ?case
  proof (cases r1)
    case (Inl e)
    with Cons.prems d g1 show ?thesis by (simp add: then_do_def)
  next
    case (Inr u)
    with Cons.prems d have "download_images en postId d (i + 1) urls w1 = (r, w')"
      by (simp add: then_do_def)
    then have "grows w1 w'" by (rule Cons.IH)
    with g1 show ?thesis by (rule grows_trans)
  qed
qed

lemma extractAndDownloadImages_grows:
  "extractAndDownloadImages en view postId d w = (r, w') \<Longrightarrow> grows w w'"
  by (auto simp: extractAndDownloadImages_def catch_do_def grows_refl Let_def
        split: if_splits prod.splits sum.splits dest: download_images_grows)

lemma extractAndDownloadVideos_grows:
  "extractAndDownloadVideos en view postId d w = (r, w') \<Longrightarrow> grows w w'"
proof -
  assume a: "extractAndDownloadVideos en view postId d w = (r, w')"
  let ?shot = "postId @ ''-video-player.png''"
  let ?w1 = "if screenshot_ok view
             then emit (Screenshot (path_join d ?shot)) (w\<lparr>fs := add_entry (fs w) d ?shot\<rparr>)
             else w"
  have g1: "grows w ?w1"
    using grows_trans [OF grows_add_entry grows_emit] by (simp add: grows_refl)
  show ?thesis
  proof (cases "video_ready view")
    case False
    with a have "writeFileSync en d (postId @ ''-video-error.txt'') w = (r, w')"
      by (simp add: extractAndDownloadVideos_def catch_do_def)
    then show ?thesis by (rule writeFileSync_grows)
  next
    case True
    show ?thesis
    proof (cases "video_present view")
      case False
      with True a show ?thesis
        by (simp add: extractAndDownloadVideos_def catch_do_def grows_refl)
    next
      case vp: True
      obtain r1 w2 where wr: "writeFileSync en d (postId @ ''-video-info.txt'') ?w1 = (r1, w2)"
        by (cases "writeFileSync en d (postId @ ''-video-info.txt'') ?w1") auto
      have g2: "grows w w2" using g1 writeFileSync_grows [OF wr] by (rule grows_trans)
      show ?thesis
      proof (cases r1)
        case (Inr u)
        with True vp a wr g2 show ?thesis
          by (simp add: extractAndDownloadVideos_def catch_do_def Let_def)
      next
        case (Inl e)
        with True vp a wr have "writeFileSync en d (postId @ ''-video-error.txt'') w2 = (r, w')"
          by (simp add: extractAndDownloadVideos_def catch_do_def Let_def)
        then have "grows w2 w'" by (rule writeFileSync_grows)
        with g2 show ?thesis by (rule grows_trans)
      qed
    qed
  qed
qed

lemma extractAndSaveText_written:
  "extractAndSaveText en view d name w = (Inr u, w') \<Longrightarrow> file_exists (fs w') d name"
  by (auto simp: extractAndSaveText_def catch_do_def Let_def
        split: if_splits prod.splits sum.splits dest: writeFileSync_written)

lemma processTweetContent_catch_not_True:
  "processTweetContent_catch en tweetUrl outputDir e w \<noteq> (Inr True, w')"
  by (auto simp: processTweetContent_catch_def then_do_def extractIds_def
        split: option.splits prod.splits sum.splits)

lemma then_do_InrE:
  assumes "then_do r f = (Inr x, w')"
  obtains a w1 where "r = (Inr a, w1)" and "f a w1 = (Inr x, w')"
proof -
  from then_do_Inr [OF assms] obtain a w1 where "r = (Inr a, w1)" and "f a w1 = (Inr x, w')"
    by blast
  then show thesis by (rule that)
qed

lemma fetch_content_written:
  assumes "fetch_content en tweetUrl userDir postId w = (Inr b, w')"
  shows "file_exists (fs w') userDir (postId @ ''.txt'')"
proof -
  let ?view = "tweet_page en tweetUrl"
  from assms obtain u4 w4 where
      t: "extractAndSaveText en ?view userDir (postId @ ''.txt'') (emit (Goto tweetUrl) w) = (Inr u4, w4)"
      and r4: "then_do (extractAndDownloadImages en ?view postId userDir w4)
                 (\<lambda>_ w5. then_do (extractAndDownloadVideos en ?view postId userDir w5)
                    (\<lambda>_ w6. (Inr True, w6))) = (Inr b, w')"
    unfolding fetch_content_def Let_def by (rule then_do_InrE) blast
  from r4 obtain u5 w5 where
      im: "extractAndDownloadImages en ?view postId userDir w4 = (Inr u5, w5)"
      and r5: "then_do (extractAndDownloadVideos en ?view postId userDir w5)
                 (\<lambda>_ w6. (Inr True, w6)) = (Inr b, w')"
    by (rule then_do_InrE) blast
  from r5 obtain u6 w6 where
      vi: "extractAndDownloadVideos en ?view postId userDir w5 = (Inr u6, w6)"
      and r6: "(Inr True, w6) = (Inr b, w')"
    by (rule then_do_InrE) blast
  have "file_exists (fs w4) userDir (postId @ ''.txt'')"
    using t by (rule extractAndSaveText_written)
  moreover have "grows w4 w5" using im by (rule extractAndDownloadImages_grows)
  moreover have "grows w5 w6" using vi by (rule extractAndDownloadVideos_grows)
  moreover have "w6 = w'" using r6 by simp
  ultimately show ?thesis by (simp add: grows_def)
qed

lemma ensureOutputDir_result:
  "ensureOutputDir en outputDir userId w = (Inr userDir, w') \<Longrightarrow> userDir = path_join outputDir userId"
  unfolding ensureOutputDir_def Let_def
  by (elim then_do_InrE) simp

lemma processed_leaves_text:
  assumes run: "processTweetContent en tweetUrl outputDir w = (Inr True, w')"
  shows "\<exists>userId postId. extractIds_search tweetUrl = Some (userId, postId) \<and>
           hasTextFile (fs w') (path_join outputDir userId) postId"
proof -
  have tr: "processTweetContent_try en tweetUrl outputDir w = (Inr True, w')"
  proof (cases "processTweetContent_try en tweetUrl outputDir w")
    case (Pair r w1)
    show ?thesis
    proof (cases r)
      case (Inr b)
      with Pair run show ?thesis by (simp add: processTweetContent_def catch_do_def)
    next
      case (Inl e)
      with Pair run have "processTweetContent_catch en tweetUrl outputDir e w1 = (Inr True, w')"
        by (simp add: processTweetContent_def catch_do_def)
      then show ?thesis using processTweetContent_catch_not_True by blast
    qed
  qed
  from tr obtain ids w1 where i: "extractIds tweetUrl w = (Inr ids, w1)"
      and r1: "(case ids of (userId, postId) \<Rightarrow> \<lambda>w1.
          then_do (ensureOutputDir en outputDir userId w1)
            (\<lambda>userDir w2.
               if already_processed (fs w2) userDir postId then (Inr False, w2)
               else fetch_content en tweetUrl userDir postId w2)) w1 = (Inr True, w')"
    unfolding processTweetContent_try_def by (rule then_do_InrE) blast
  obtain userId postId where ids: "ids = (userId, postId)" by (cases ids) auto
  from i ids have srch: "extractIds_search tweetUrl = Some (userId, postId)"
    by (auto simp: extractIds_def split: option.splits)
  from r1 have r1': "then_do (ensureOutputDir en outputDir userId w1)
            (\<lambda>userDir w2.
               if already_processed (fs w2) userDir postId then (Inr False, w2)
               else fetch_content en tweetUrl userDir postId w2) = (Inr True, w')"
    by (simp add: ids)
  from r1' obtain userDir w2 where e: "ensureOutputDir en outputDir userId w1 = (Inr userDir, w2)"
      and r2: "(if already_processed (fs w2) userDir postId then (Inr False, w2)
               else fetch_content en tweetUrl userDir postId w2) = (Inr True, w')"
    by (rule then_do_InrE) blast
  have ud: "userDir = path_join outputDir userId"
    using e by (rule ensureOutputDir_result)
  from r2 have "fetch_content en tweetUrl userDir postId w2 = (Inr True, w')"
    by (simp split: if_splits)
  then have "file_exists (fs w') userDir (postId @ ''.txt'')"
    by (rule fetch_content_written)
  with srch ud show ?thesis by (auto simp: hasTextFile_def)
qed

lemma post_url_ids: "extractIds_search post_url = Some (''u'', ''1'')"
  by (simp add: post_url_def extractIds_at_def is_digit_def)

lemma artifact_already_processed:
  assumes "name \<in> set (readdir f d)"
      and "name = postId @ ''.txt'' \<or>
           (startsWith name (postId @ ''-'') \<and>
              (endsWith name ''.jpg'' \<or> endsWith name ''.png'' \<or> endsWith name ''.gif'')) \<or>
           name = postId @ ''.mp4'' \<or> name = postId @ ''-video-info.txt'' \<or>
           name = postId @ ''-video-error.txt'' \<or> name = postId @ ''-video-player.png''"
  shows "already_processed f d postId"
  using assms
  by (auto simp: already_processed_def hasTextFile_def hasImageFiles_def hasVideoFile_def
        hasVideoInfo_def hasVideoError_def hasScreenshot_def file_exists_def list_ex_iff)

text \<open>
  Claim C3, as the code has it. A post counts as done when its directory holds the text
  file, any file \<open>postId-*\<close> ending in \<open>.jpg\<close>, \<open>.png\<close> or \<open>.gif\<close> (the numbered
  images and the player screenshot), the video file, the video-info file or the
  video-error file. Then \<open>processTweetContent\<close> returns \<open>false\<close> and leaves the world
  as it was: no directory made, no navigation, no write, no fetch. After a run that
  returned \<open>true\<close>, a second run on the resulting disk is such a skip.
\<close>

theorem skipped_when_artifact_present:
  "(extractIds_search tweetUrl = Some (userId, postId) \<and>
    name \<in> set (readdir (fs w) (path_join outputDir userId)) \<and>
    (name = postId @ ''.txt'' \<or>
     (startsWith name (postId @ ''-'') \<and>
        (endsWith name ''.jpg'' \<or> endsWith name ''.png'' \<or> endsWith name ''.gif'')) \<or>
     name = postId @ ''.mp4'' \<or> name = postId @ ''-video-info.txt'' \<or>
     name = postId @ ''-video-error.txt'' \<or> name = postId @ ''-video-player.png'')
    \<longrightarrow> processTweetContent en tweetUrl outputDir w = (Inr False, w)) \<and>
   (processTweetContent en tweetUrl outputDir w = (Inr True, w')
    \<longrightarrow> processTweetContent en2 tweetUrl outputDir w' = (Inr False, w'))"
proof (intro conjI impI)
  assume a: "extractIds_search tweetUrl = Some (userId, postId) \<and>
    name \<in> set (readdir (fs w) (path_join outputDir userId)) \<and>
    (name = postId @ ''.txt'' \<or>
     (startsWith name (postId @ ''-'') \<and>
        (endsWith name ''.jpg'' \<or> endsWith name ''.png'' \<or> endsWith name ''.gif'')) \<or>
     name = postId @ ''.mp4'' \<or> name = postId @ ''-video-info.txt'' \<or>
     name = postId @ ''-video-error.txt'' \<or> name = postId @ ''-video-player.png'')"
  from a have ids: "extractIds_search tweetUrl = Some (userId, postId)" by (rule conjunct1)
  from a have m: "name \<in> set (readdir (fs w) (path_join outputDir userId))"
    by (rule conjunct1 [OF conjunct2])
  from a have k: "name = postId @ ''.txt'' \<or>
     (startsWith name (postId @ ''-'') \<and>
        (endsWith name ''.jpg'' \<or> endsWith name ''.png'' \<or> endsWith name ''.gif'')) \<or>
     name = postId @ ''.mp4'' \<or> name = postId @ ''-video-info.txt'' \<or>
     name = postId @ ''-video-error.txt'' \<or> name = postId @ ''-video-player.png''"
    by (rule conjunct2 [OF conjunct2])
  have "already_processed (fs w) (path_join outputDir userId) postId"
    using m k by (rule artifact_already_processed)
  with ids show "processTweetContent en tweetUrl outputDir w = (Inr False, w)"
    by (rule skip_already_processed)
next
  assume "processTweetContent en tweetUrl outputDir w = (Inr True, w')"
  then have "\<exists>userId postId. extractIds_search tweetUrl = Some (userId, postId) \<and>
           hasTextFile (fs w') (path_join outputDir userId) postId"
    by (rule processed_leaves_text)
  then obtain userId postId where ids: "extractIds_search tweetUrl = Some (userId, postId)"
      and t: "hasTextFile (fs w') (path_join outputDir userId) postId"
    by (elim exE conjE)
  from t have "already_processed (fs w') (path_join outputDir userId) postId"
    by (simp add: already_processed_def)
  with ids show "processTweetContent en2 tweetUrl outputDir w' = (Inr False, w')"
    by (rule skip_already_processed)
qed

lemmas run_defs =
  processTweetContent_def processTweetContent_try_def processTweetContent_catch_def
  fetch_content_def extractIds_def ensureOutputDir_def then_do_def catch_do_def
  extractAndSaveText_def extractAndDownloadImages_def extractAndDownloadVideos_def
  writeFileSync_def mkdirSync_def emit_def path_join_def dir_exists_def readdir_def
  add_entry_def set_add_def already_processed_def hasTextFile_def hasImageFiles_def
  hasVideoFile_def hasVideoInfo_def hasVideoError_def hasScreenshot_def file_exists_def
  endsWith_def env_of_feed_def quiet_view_def Let_def

lemma first_run:
  "processTweetContent (env_of_feed (\<lambda>_. [])) post_url ''out'' empty_world =
     (Inr True,
      \<lparr>fs = [(''out'', []), (''out/u'', [''1.txt''])],
       trace = [MkDir ''out'', MkDir ''out/u'', Goto post_url, ScrollBottom, WaitFor 2000,
                WaitFor 2000, WriteFile ''out/u/1.txt'']\<rparr>)"
  by (simp add: run_defs post_url_ids empty_world_def)

theorem skipped_when_artifact_present_witness:
  "extractIds_search post_url = Some (''u'', ''1'') \<and>
   ''1-1.jpg'' \<in> set (readdir (fs (world_with [''1-1.jpg''])) (path_join ''out'' ''u'')) \<and>
   startsWith ''1-1.jpg'' (''1'' @ ''-'') \<and> endsWith ''1-1.jpg'' ''.jpg'' \<and>
   processTweetContent (env_of_feed (\<lambda>_. [])) post_url ''out'' (world_with [''1-1.jpg''])
     = (Inr False, world_with [''1-1.jpg'']) \<and>
   processTweetContent (env_of_feed (\<lambda>_. [])) post_url ''out'' empty_world =
     (Inr True,
      \<lparr>fs = [(''out'', []), (''out/u'', [''1.txt''])],
       trace = [MkDir ''out'', MkDir ''out/u'', Goto post_url, ScrollBottom, WaitFor 2000,
                WaitFor 2000, WriteFile ''out/u/1.txt'']\<rparr>) \<and>
   processTweetContent (env_of_feed (\<lambda>_. [])) post_url ''out''
      \<lparr>fs = [(''out'', []), (''out/u'', [''1.txt''])],
       trace = [MkDir ''out'', MkDir ''out/u'', Goto post_url, ScrollBottom, WaitFor 2000,
                WaitFor 2000, WriteFile ''out/u/1.txt'']\<rparr> =
     (Inr False,
      \<lparr>fs = [(''out'', []), (''out/u'', [''1.txt''])],
       trace = [MkDir ''out'', MkDir ''out/u'', Goto post_url, ScrollBottom, WaitFor 2000,
                WaitFor 2000, WriteFile ''out/u/1.txt'']\<rparr>)"
proof -
  have m: "''1-1.jpg'' \<in> set (readdir (fs (world_with [''1-1.jpg''])) (path_join ''out'' ''u''))"
    by (simp add: world_with_def readdir_def path_join_def)
  have s: "startsWith ''1-1.jpg'' (''1'' @ ''-'')" "endsWith ''1-1.jpg'' ''.jpg''"
    by (simp_all add: endsWith_def)
  from skipped_when_artifact_present
         [of post_url "''u''" "''1''" "''1-1.jpg''" "world_with [''1-1.jpg'']" "''out''"
             "env_of_feed (\<lambda>_. [])" _ "env_of_feed (\<lambda>_. [])"]
       skipped_when_artifact_present
         [of post_url "''u''" "''1''" "''1-1.jpg''" empty_world "''out''"
             "env_of_feed (\<lambda>_. [])"
             "\<lparr>fs = [(''out'', []), (''out/u'', [''1.txt''])],
               trace = [MkDir ''out'', MkDir ''out/u'', Goto post_url, ScrollBottom, WaitFor 2000,
                WaitFor 2000, WriteFile ''out/u/1.txt'']\<rparr>" "env_of_feed (\<lambda>_. [])"]
       post_url_ids m s first_run
  show ?thesis by simp
qed

text \<open>
  Claim C3 as stated fails for the rate-limit marker: a directory that holds only
  \<open>1-rate-limited.txt\<close> does not pass the check, and the post is visited and written.
\<close>

theorem rate_limit_marker_not_checked_counterexample:
  "\<not> already_processed (fs (world_with [''1-rate-limited.txt''])) (path_join ''out'' ''u'') ''1'' \<and>
   processTweetContent (env_of_feed (\<lambda>_. [])) post_url ''out'' (world_with [''1-rate-limited.txt'']) =
     (Inr True,
      \<lparr>fs = [(''out/u'', [''1-rate-limited.txt'', ''1.txt''])],
       trace = [Goto post_url, ScrollBottom, WaitFor 2000, WaitFor 2000,
                WriteFile ''out/u/1.txt'']\<rparr>)"
  by (simp add: run_defs post_url_ids world_with_def)

section \<open>Properties of link discovery: evaluated runs\<close>

lemma find_links_cases:
  "find_links en url max_id limit dl out fs0 =
     (case session_fault en of
        Some e \<Rightarrow> Some (Inl e, \<lparr>fs = fs0, trace = []\<rparr>)
      | None \<Rightarrow>
          (case page_fault en of
             Some e \<Rightarrow> Some (Inl e, \<lparr>fs = fs0, trace = []\<rparr>)
           | None \<Rightarrow> find_links_page en url max_id limit dl out fs0))"
  by (simp add: find_links_def get_browser_with_session_def newPage_def then_do_def
        split: option.splits)

lemma find_links_returned:
  "find_links en url max_id limit dl out fs0 = Some (Inr links, w') \<Longrightarrow>
   find_links_page en url max_id limit dl out fs0 = Some (Inr links, w')"
  by (simp add: find_links_cases split: option.splits)

lemma env_of_feed_opens:
  "session_fault (env_of_feed f) = None" "page_fault (env_of_feed f) = None"
  by (simp_all add: env_of_feed_def)

lemma find_links_env_of_feed:
  "find_links (env_of_feed f) url max_id limit dl out fs0 =
     find_links_page (env_of_feed f) url max_id limit dl out fs0"
  by (simp add: find_links_cases env_of_feed_opens)

lemmas discovery_defs =
  find_links_def find_links_page_def get_browser_with_session_def newPage_def initial_wait_def MAX_RETRIES_def catch_do_def then_do_def emit_def close_page_def
  extractLinks_def add_item_def query_articles_def item_of_def env_of_feed_def
  video_post_def bare_article_def isSimpleTweet_def hasVideo_def hasPoll_def hasCard_def
  hasShowMore_def set_add_def full_url_def loop_cond_def loop_body_def finish_def
  finalLinks_def remainingLinks_def span_auto_plain_def span_says_more_def late_feed_def

lemma video_post_url_ids: "extractIds_search ''https://x.com/u/status/2'' = Some (''u'', ''2'')"
  by (simp add: extractIds_at_def is_digit_def)

lemma env_of_feed_fields:
  "articles_appear (env_of_feed f) i" "feed (env_of_feed f) = f"
  by (simp_all add: env_of_feed_def)

lemma video_post_fetched:
  "processTweetContent (env_of_feed f) ''https://x.com/u/status/2'' ''out'' \<lparr>fs = [], trace = tr\<rparr> =
     (Inr True,
      \<lparr>fs = [(''out'', []), (''out/u'', [''2.txt''])],
       trace = tr @ [MkDir ''out'', MkDir ''out/u'', Goto ''https://x.com/u/status/2'',
                     ScrollBottom, WaitFor 2000, WaitFor 2000, WriteFile ''out/u/2.txt'']\<rparr>)"
  by (simp add: run_defs extractIds_at_def is_digit_def)

lemma video_post_batch:
  "processMultipleTweets (env_of_feed f) [''https://x.com/u/status/2''] ''out'' 5000 \<lparr>fs = [], trace = tr\<rparr> =
     (Inr \<lparr>processedCount = 1, skippedCount = 0, rateLimitedCount = 0\<rparr>,
      \<lparr>fs = [(''out'', []), (''out/u'', [''2.txt''])],
       trace = tr @ [BatchStart [''https://x.com/u/status/2''], MkDir ''out'', MkDir ''out/u'',
                     Goto ''https://x.com/u/status/2'',
                     ScrollBottom, WaitFor 2000, WaitFor 2000, WriteFile ''out/u/2.txt'']\<rparr>)"
  by (simp add: processMultipleTweets_def emit_def video_post_fetched then_do_def catch_do_def)

lemma limit_in_scroll_loop_reaches_batch:
  "find_links (env_of_feed late_feed) ''https://x.com/u'' 0 1 True ''out'' [] =
     Some (Inr [''https://x.com/u/status/2''],
           \<lparr>fs = [(''out'', []), (''out/u'', [''2.txt''])],
            trace = [Goto ''https://x.com/u'', ScrollViewport, WaitFor 1500,
                     BatchStart [''https://x.com/u/status/2''], MkDir ''out'', MkDir ''out/u'',
                     Goto ''https://x.com/u/status/2'', ScrollBottom, WaitFor 2000, WaitFor 2000,
                     WriteFile ''out/u/2.txt'', Goto ''https://x.com/u'', ClosePage]\<rparr>)"
  by (simp add: find_links_env_of_feed find_links_page_def initial_wait_def MAX_RETRIES_def catch_do_def then_do_def emit_def
        close_page_def extractLinks_def add_item_def query_articles_def item_of_def video_post_def
        bare_article_def isSimpleTweet_def hasVideo_def set_add_def full_url_def loop_cond_def
        loop_body_def finish_def finalLinks_def remainingLinks_def late_feed_def
        eval_nat_numeral scroll_loop.simps
        video_post_batch env_of_feed_fields Let_def)

text \<open>
  Claim C9 at a run where the code departs from it. The timeline shows one post with a
  video, download is enabled and the limit is 1. The limit is reached in the first
  extraction and \<open>find_links\<close> returns at once: the returned post is complex, nothing was
  saved for it, and no list is handed to \<open>processMultipleTweets\<close>. Where the same limit
  is reached inside the scroll loop (\<open>limit_in_scroll_loop_reaches_batch\<close>), the post is
  handed over and fetched.
\<close>

theorem limit_in_first_extraction_skips_batch:
  "find_links (env_of_feed (\<lambda>_. [video_post])) ''https://x.com/u'' 0 1 True ''out'' [] =
     Some (Inr [''https://x.com/u/status/2''],
           \<lparr>fs = [], trace = [Goto ''https://x.com/u'', ClosePage]\<rparr>)"
  by (simp add: discovery_defs eval_nat_numeral)

text \<open>
  Claim C4 at a run where the code departs from it. The first extraction finds the only
  post there is; no scroll adds a link. The loop makes four scroll-extract cycles before
  it stops, not three: \<open>previousSize\<close> starts at 0, so the first cycle counts as growth.
\<close>

theorem four_stable_cycles:
  "find_links (env_of_feed (\<lambda>_. [bare_article])) ''https://x.com/u'' 0 0 False ''out'' [] =
     Some (Inr [''https://x.com/u/status/1''],
           \<lparr>fs = [], trace = [Goto ''https://x.com/u'',
              ScrollViewport, WaitFor 1500, ScrollViewport, WaitFor 1500,
              ScrollViewport, WaitFor 1500, ScrollViewport, WaitFor 1500, ClosePage]\<rparr>)"
  by (simp add: discovery_defs eval_nat_numeral scroll_loop.simps)

section \<open>Properties of error propagation\<close>

lemma batch_loop_total:
  "\<exists>c' w'. batch_loop en outputDir sleepMs urls c w = (Inr c', w') \<and>
           total_count c' = total_count c + length urls"
proof (induction urls arbitrary: c w)
  case Nil
  show ?case by simp
next
  case (Cons url rest)
  obtain r w1 where p: "processTweetContent en url outputDir w = (r, w1)"
    by (cases "processTweetContent en url outputDir w") auto
  show ?case
  proof (cases r)
    case (Inl e)
    let ?c1 = "if is_rate_limit e then c\<lparr>rateLimitedCount := rateLimitedCount c + 1\<rparr>
               else c\<lparr>skippedCount := skippedCount c + 1\<rparr>"
    let ?w2 = "if rest \<noteq> [] then emit (WaitFor sleepMs) w1 else w1"
    have step: "batch_loop en outputDir sleepMs (url # rest) c w =
                  batch_loop en outputDir sleepMs rest ?c1 ?w2"
      using p Inl by (simp add: then_do_def catch_do_def Let_def)
    have "total_count ?c1 = total_count c + 1" by (simp add: total_count_def)
    with Cons.IH [of ?c1 ?w2] step show ?thesis by auto
  next
    case (Inr wasProcessed)
    let ?c1 = "if wasProcessed then c\<lparr>processedCount := processedCount c + 1\<rparr>
               else c\<lparr>skippedCount := skippedCount c + 1\<rparr>"
    let ?w2 = "if rest \<noteq> [] \<and> wasProcessed then emit (WaitFor sleepMs) w1 else w1"
    have step: "batch_loop en outputDir sleepMs (url # rest) c w =
                  batch_loop en outputDir sleepMs rest ?c1 ?w2"
      using p Inr by (simp add: then_do_def catch_do_def Let_def)
    have "total_count ?c1 = total_count c + 1" by (simp add: total_count_def)
    with Cons.IH [of ?c1 ?w2] step show ?thesis by auto
  qed
qed

lemma processMultipleTweets_total:
  "\<exists>c w'. processMultipleTweets en urls outputDir sleepMs w = (Inr c, w') \<and>
          total_count c = length urls"
proof -
  obtain c w' where
    "batch_loop en outputDir sleepMs urls
       \<lparr>processedCount = 0, skippedCount = 0, rateLimitedCount = 0\<rparr> (emit (BatchStart urls) w)
       = (Inr c, w')"
    and "total_count c = total_count \<lparr>processedCount = 0, skippedCount = 0, rateLimitedCount = 0\<rparr> + length urls"
    using batch_loop_total by blast
  then show ?thesis
    by (simp add: processMultipleTweets_def catch_do_def total_count_def)
qed

















section \<open>Properties of the outcome of a post and of the summary\<close>

lemma url_429_ids: "extractIds_search url_429 = Some (''u'', ''429'')"
  by (simp add: url_429_def extractIds_at_def is_digit_def)

lemma io_error_is_rate_limit: "is_rate_limit io_error_429"
  by (simp add: is_rate_limit_def io_error_429_def)

lemma dir_exists_mkdir:
  "mkdirSync en d w = (Inr u, w') \<Longrightarrow> dir_exists (fs w') d"
  by (auto simp: mkdirSync_def fs_emit dir_exists_put_dir_self split: option.splits)

lemma mkdirSync_keeps_dirs:
  "mkdirSync en d w = (Inr u, w') \<Longrightarrow> dir_exists (fs w) d' \<Longrightarrow> dir_exists (fs w') d'"
  by (auto simp: mkdirSync_def fs_emit dir_exists_put_dir split: option.splits)

lemma mkdirSync_no_fault:
  "fs_fault en d = None \<Longrightarrow> \<exists>w'. mkdirSync en d w = (Inr (), w')"
  by (simp add: mkdirSync_def)

lemma ensureOutputDir_no_fault:
  assumes "fs_fault en outputDir = None" and "fs_fault en (path_join outputDir userId) = None"
  shows "\<exists>w'. ensureOutputDir en outputDir userId w = (Inr (path_join outputDir userId), w') \<and>
              dir_exists (fs w') (path_join outputDir userId)"
proof -
  let ?ud = "path_join outputDir userId"
  obtain w1 where s1: "(if \<not> dir_exists (fs w) outputDir then mkdirSync en outputDir w else (Inr (), w)) = (Inr (), w1)"
    using mkdirSync_no_fault [OF assms(1), of w] by (cases "dir_exists (fs w) outputDir") auto
  obtain w2 where s2: "(if \<not> dir_exists (fs w1) ?ud then mkdirSync en ?ud w1 else (Inr (), w1)) = (Inr (), w2)"
    using mkdirSync_no_fault [OF assms(2), of w1] by (cases "dir_exists (fs w1) ?ud") auto
  have "dir_exists (fs w2) ?ud"
  proof (cases "dir_exists (fs w1) ?ud")
    case True
    with s2 show ?thesis by simp
  next
    case False
    with s2 have "mkdirSync en ?ud w1 = (Inr (), w2)" by simp
    then show ?thesis by (rule dir_exists_mkdir)
  qed
  moreover have "ensureOutputDir en outputDir userId w = (Inr ?ud, w2)"
    using s1 s2 by (simp add: ensureOutputDir_def then_do_def Let_def)
  ultimately show ?thesis by blast
qed

lemma rate_limit_recorded:
  assumes tr: "processTweetContent_try en tweetUrl outputDir w = (Inl e, w1)"
      and rl: "is_rate_limit e"
      and ids: "extractIds_search tweetUrl = Some (userId, postId)"
      and f1: "fs_fault en outputDir = None"
      and f2: "fs_fault en (path_join outputDir userId) = None"
      and f3: "fs_fault en (path_join (path_join outputDir userId) (postId @ ''-rate-limited.txt'')) = None"
  shows "\<exists>w'. processTweetContent en tweetUrl outputDir w = (Inr False, w') \<and>
              file_exists (fs w') (path_join outputDir userId) (postId @ ''-rate-limited.txt'')"
proof -
  let ?ud = "path_join outputDir userId"
  obtain w2 where e: "ensureOutputDir en outputDir userId w1 = (Inr ?ud, w2)"
      and d: "dir_exists (fs w2) ?ud"
    using ensureOutputDir_no_fault [OF f1 f2, of w1] by blast
  let ?w3 = "emit (WriteFile (path_join ?ud (postId @ ''-rate-limited.txt'')))
               (w2\<lparr>fs := add_entry (fs w2) ?ud (postId @ ''-rate-limited.txt'')\<rparr>)"
  have wr: "writeFileSync en ?ud (postId @ ''-rate-limited.txt'') w2 = (Inr (), ?w3)"
    using f3 d by (simp add: writeFileSync_def)
  have "processTweetContent en tweetUrl outputDir w = (Inr False, ?w3)"
    using tr rl ids e wr
    by (simp add: processTweetContent_def catch_do_def processTweetContent_catch_def
          extractIds_def then_do_def)
  moreover have "file_exists (fs ?w3) ?ud (postId @ ''-rate-limited.txt'')"
    using wr by (rule writeFileSync_written)
  ultimately show ?thesis by blast
qed

lemma batch_loop_returned:
  assumes "processTweetContent en url outputDir w = (Inr wasProcessed, w1)"
  shows "batch_loop en outputDir sleepMs (url # rest) c w =
           batch_loop en outputDir sleepMs rest
             (if wasProcessed then c\<lparr>processedCount := processedCount c + 1\<rparr>
              else c\<lparr>skippedCount := skippedCount c + 1\<rparr>)
             (if rest \<noteq> [] \<and> wasProcessed then emit (WaitFor sleepMs) w1 else w1)"
  using assms by (simp add: then_do_def catch_do_def Let_def)

lemma other_error_skipped:
  assumes "processTweetContent_try en tweetUrl outputDir w = (Inl e, w1)"
      and "\<not> is_rate_limit e"
  shows "processTweetContent en tweetUrl outputDir w = (Inr False, w1)"
  using assms by (simp add: processTweetContent_def catch_do_def processTweetContent_catch_def)

lemma processed_by_try:
  assumes "processTweetContent en tweetUrl outputDir w = (Inr True, w1)"
  shows "processTweetContent_try en tweetUrl outputDir w = (Inr True, w1)"
proof (cases "processTweetContent_try en tweetUrl outputDir w")
  case (Pair r w2)
  show ?thesis
  proof (cases r)
    case (Inl e)
    with Pair assms have "processTweetContent_catch en tweetUrl outputDir e w2 = (Inr True, w1)"
      by (simp add: processTweetContent_def catch_do_def)
    then show ?thesis using processTweetContent_catch_not_True by blast
  next
    case (Inr b)
    with Pair assms show ?thesis by (simp add: processTweetContent_def catch_do_def)
  qed
qed

text \<open>
  Claim C7, as the code has it. \<open>processTweetContent\<close> returns a boolean. It is \<open>true\<close>
  only when the \<open>try\<close> block ran to its end. It is \<open>false\<close> when the post is already
  done, and nothing is touched then; when the \<open>try\<close> block raises an error that is not a
  rate limit; and when the \<open>try\<close> block raises an error with code 429 or with 429 in its
  message, the URL is that of a post and the directories and the placeholder can be
  written: then the file \<open>postId-rate-limited.txt\<close> exists afterwards. In the summary an
  item reported \<open>true\<close> raises the processed count and no other, an item that was already
  done or failed with another error raises the skipped count and no other, the batch goes
  on with the next URL, and the three counts add up to the number of URLs.
\<close>

theorem outcome_is_boolean_and_counted:
  "(processTweetContent en_p url_p outputDir w_p = (Inr True, w_p1) \<longrightarrow>
      processTweetContent_try en_p url_p outputDir w_p = (Inr True, w_p1) \<and>
      batch_loop en_p outputDir sleepMs (url_p # rest_p) c_p w_p =
        batch_loop en_p outputDir sleepMs rest_p (c_p\<lparr>processedCount := processedCount c_p + 1\<rparr>)
          (if rest_p \<noteq> [] then emit (WaitFor sleepMs) w_p1 else w_p1)) \<and>
   (extractIds_search url_d = Some (userId_d, postId_d) \<and>
    already_processed (fs w_d) (path_join outputDir userId_d) postId_d \<longrightarrow>
      processTweetContent en_d url_d outputDir w_d = (Inr False, w_d) \<and>
      batch_loop en_d outputDir sleepMs (url_d # rest_d) c_d w_d =
        batch_loop en_d outputDir sleepMs rest_d (c_d\<lparr>skippedCount := skippedCount c_d + 1\<rparr>) w_d) \<and>
   (processTweetContent_try en_e url_e outputDir w_e = (Inl e_e, w_e1) \<and> \<not> is_rate_limit e_e \<longrightarrow>
      processTweetContent en_e url_e outputDir w_e = (Inr False, w_e1) \<and>
      batch_loop en_e outputDir sleepMs (url_e # rest_e) c_e w_e =
        batch_loop en_e outputDir sleepMs rest_e (c_e\<lparr>skippedCount := skippedCount c_e + 1\<rparr>) w_e1) \<and>
   (processTweetContent_try en tweetUrl outputDir w = (Inl e, w1) \<and> is_rate_limit e \<and>
    extractIds_search tweetUrl = Some (userId, postId) \<and>
    fs_fault en outputDir = None \<and> fs_fault en (path_join outputDir userId) = None \<and>
    fs_fault en (path_join (path_join outputDir userId) (postId @ ''-rate-limited.txt'')) = None
    \<longrightarrow> (\<exists>w'. processTweetContent en tweetUrl outputDir w = (Inr False, w') \<and>
              file_exists (fs w') (path_join outputDir userId) (postId @ ''-rate-limited.txt''))) \<and>
   (\<exists>c w'. processMultipleTweets en urls outputDir sleepMs w = (Inr c, w') \<and>
           processedCount c + skippedCount c + rateLimitedCount c = length urls)"
proof (intro conjI impI)
  assume a: "processTweetContent en_p url_p outputDir w_p = (Inr True, w_p1)"
  then show "processTweetContent_try en_p url_p outputDir w_p = (Inr True, w_p1)"
    by (rule processed_by_try)
  from batch_loop_returned [OF a, of sleepMs rest_p c_p]
  show "batch_loop en_p outputDir sleepMs (url_p # rest_p) c_p w_p =
        batch_loop en_p outputDir sleepMs rest_p (c_p\<lparr>processedCount := processedCount c_p + 1\<rparr>)
          (if rest_p \<noteq> [] then emit (WaitFor sleepMs) w_p1 else w_p1)"
    by simp
next
  assume a: "extractIds_search url_d = Some (userId_d, postId_d) \<and>
    already_processed (fs w_d) (path_join outputDir userId_d) postId_d"
  then have r: "processTweetContent en_d url_d outputDir w_d = (Inr False, w_d)"
    using skip_already_processed [of url_d userId_d postId_d w_d outputDir en_d] by simp
  then show "processTweetContent en_d url_d outputDir w_d = (Inr False, w_d)" .
  from batch_loop_returned [OF r, of sleepMs rest_d c_d]
  show "batch_loop en_d outputDir sleepMs (url_d # rest_d) c_d w_d =
        batch_loop en_d outputDir sleepMs rest_d (c_d\<lparr>skippedCount := skippedCount c_d + 1\<rparr>) w_d"
    by simp
next
  assume a: "processTweetContent_try en_e url_e outputDir w_e = (Inl e_e, w_e1) \<and> \<not> is_rate_limit e_e"
  then have r: "processTweetContent en_e url_e outputDir w_e = (Inr False, w_e1)"
    using other_error_skipped [of en_e url_e outputDir w_e e_e w_e1] by simp
  then show "processTweetContent en_e url_e outputDir w_e = (Inr False, w_e1)" .
  from batch_loop_returned [OF r, of sleepMs rest_e c_e]
  show "batch_loop en_e outputDir sleepMs (url_e # rest_e) c_e w_e =
        batch_loop en_e outputDir sleepMs rest_e (c_e\<lparr>skippedCount := skippedCount c_e + 1\<rparr>) w_e1"
    by simp
next
  assume a: "processTweetContent_try en tweetUrl outputDir w = (Inl e, w1) \<and> is_rate_limit e \<and>
    extractIds_search tweetUrl = Some (userId, postId) \<and>
    fs_fault en outputDir = None \<and> fs_fault en (path_join outputDir userId) = None \<and>
    fs_fault en (path_join (path_join outputDir userId) (postId @ ''-rate-limited.txt'')) = None"
  show "\<exists>w'. processTweetContent en tweetUrl outputDir w = (Inr False, w') \<and>
              file_exists (fs w') (path_join outputDir userId) (postId @ ''-rate-limited.txt'')"
    using a by (intro rate_limit_recorded [of en tweetUrl outputDir w e w1 userId postId]) simp_all
next
  show "\<exists>c w'. processMultipleTweets en urls outputDir sleepMs w = (Inr c, w') \<and>
           processedCount c + skippedCount c + rateLimitedCount c = length urls"
    using processMultipleTweets_total [of en urls outputDir sleepMs w]
    by (simp add: total_count_def)
qed

lemma rate_limited_try:
  "processTweetContent_try env_text_fault url_429 ''out'' empty_world =
     (Inl io_error_429,
      \<lparr>fs = [(''out'', []), (''out/u'', [])],
       trace = [MkDir ''out'', MkDir ''out/u'', Goto url_429, ScrollBottom, WaitFor 2000,
                WaitFor 2000]\<rparr>)"
  by (simp add: run_defs url_429_ids env_text_fault_def empty_world_def)

lemma rate_limited_run:
  "processTweetContent env_text_fault url_429 ''out'' empty_world =
     (Inr False,
      \<lparr>fs = [(''out'', []), (''out/u'', [''429-rate-limited.txt''])],
       trace = [MkDir ''out'', MkDir ''out/u'', Goto url_429, ScrollBottom, WaitFor 2000,
                WaitFor 2000, WriteFile ''out/u/429-rate-limited.txt'']\<rparr>)"
  by (simp add: run_defs url_429_ids env_text_fault_def empty_world_def io_error_is_rate_limit)

lemma malformed_try:
  "processTweetContent_try (env_of_feed (\<lambda>_. [])) ''https://x.com/u'' ''out'' empty_world =
     (Inl (invalid_url_error ''https://x.com/u''), empty_world)"
  "\<not> is_rate_limit (invalid_url_error ''https://x.com/u'')"
  by (simp_all add: run_defs extractIds_at_def is_rate_limit_def invalid_url_error_def)

lemma done_before:
  "already_processed (fs (world_with [''1.txt''])) (path_join ''out'' ''u'') ''1''"
  by (simp add: already_processed_def hasTextFile_def file_exists_def readdir_def world_with_def
        path_join_def)

theorem outcome_is_boolean_and_counted_witness:
  "processTweetContent (env_of_feed (\<lambda>_. [])) post_url ''out'' empty_world =
     (Inr True,
      \<lparr>fs = [(''out'', []), (''out/u'', [''1.txt''])],
       trace = [MkDir ''out'', MkDir ''out/u'', Goto post_url, ScrollBottom, WaitFor 2000,
                WaitFor 2000, WriteFile ''out/u/1.txt'']\<rparr>) \<and>
   processTweetContent_try (env_of_feed (\<lambda>_. [])) post_url ''out'' empty_world =
     (Inr True,
      \<lparr>fs = [(''out'', []), (''out/u'', [''1.txt''])],
       trace = [MkDir ''out'', MkDir ''out/u'', Goto post_url, ScrollBottom, WaitFor 2000,
                WaitFor 2000, WriteFile ''out/u/1.txt'']\<rparr>) \<and>
   extractIds_search post_url = Some (''u'', ''1'') \<and>
   already_processed (fs (world_with [''1.txt''])) (path_join ''out'' ''u'') ''1'' \<and>
   processTweetContent (env_of_feed (\<lambda>_. [])) post_url ''out'' (world_with [''1.txt'']) =
     (Inr False, world_with [''1.txt'']) \<and>
   batch_loop (env_of_feed (\<lambda>_. [])) ''out'' 5000 [post_url, url_429]
       \<lparr>processedCount = 0, skippedCount = 0, rateLimitedCount = 0\<rparr> (world_with [''1.txt'']) =
     batch_loop (env_of_feed (\<lambda>_. [])) ''out'' 5000 [url_429]
       \<lparr>processedCount = 0, skippedCount = 1, rateLimitedCount = 0\<rparr> (world_with [''1.txt'']) \<and>
   processTweetContent_try (env_of_feed (\<lambda>_. [])) ''https://x.com/u'' ''out'' empty_world =
     (Inl (invalid_url_error ''https://x.com/u''), empty_world) \<and>
   \<not> is_rate_limit (invalid_url_error ''https://x.com/u'') \<and>
   processTweetContent (env_of_feed (\<lambda>_. [])) ''https://x.com/u'' ''out'' empty_world =
     (Inr False, empty_world) \<and>
   processTweetContent_try env_text_fault url_429 ''out'' empty_world =
     (Inl io_error_429,
      \<lparr>fs = [(''out'', []), (''out/u'', [])],
       trace = [MkDir ''out'', MkDir ''out/u'', Goto url_429, ScrollBottom, WaitFor 2000,
                WaitFor 2000]\<rparr>) \<and>
   is_rate_limit io_error_429 \<and>
   extractIds_search url_429 = Some (''u'', ''429'') \<and>
   fs_fault env_text_fault ''out'' = None \<and>
   fs_fault env_text_fault (path_join ''out'' ''u'') = None \<and>
   fs_fault env_text_fault (path_join (path_join ''out'' ''u'') (''429'' @ ''-rate-limited.txt'')) = None \<and>
   (\<exists>w'. processTweetContent env_text_fault url_429 ''out'' empty_world = (Inr False, w') \<and>
         file_exists (fs w') (path_join ''out'' ''u'') (''429'' @ ''-rate-limited.txt'')) \<and>
   (\<exists>c w'. processMultipleTweets env_text_fault [url_429] ''out'' 5000 empty_world = (Inr c, w') \<and>
           processedCount c + skippedCount c + rateLimitedCount c = length [url_429])"
proof -
  let ?W = "\<lparr>fs = [(''out'', []), (''out/u'', [''1.txt''])],
       trace = [MkDir ''out'', MkDir ''out/u'', Goto post_url, ScrollBottom, WaitFor 2000,
                WaitFor 2000, WriteFile ''out/u/1.txt'']\<rparr>"
  let ?W2 = "\<lparr>fs = [(''out'', []), (''out/u'', [])],
               trace = [MkDir ''out'', MkDir ''out/u'', Goto url_429, ScrollBottom, WaitFor 2000,
                        WaitFor 2000]\<rparr>"
  have f: "fs_fault env_text_fault ''out'' = None"
          "fs_fault env_text_fault (path_join ''out'' ''u'') = None"
          "fs_fault env_text_fault (path_join (path_join ''out'' ''u'') (''429'' @ ''-rate-limited.txt'')) = None"
    by (simp_all add: env_text_fault_def path_join_def)
  from outcome_is_boolean_and_counted
         [where en_p = "env_of_feed (\<lambda>_. [])" and url_p = post_url and outputDir = "''out''"
            and w_p = empty_world and ?w_p1.0 = ?W and sleepMs = 5000 and rest_p = "[]"
            and c_p = "\<lparr>processedCount = 0, skippedCount = 0, rateLimitedCount = 0\<rparr>"
            and url_d = post_url and userId_d = "''u''" and postId_d = "''1''"
            and w_d = "world_with [''1.txt'']" and en_d = "env_of_feed (\<lambda>_. [])"
            and rest_d = "[url_429]"
            and c_d = "\<lparr>processedCount = 0, skippedCount = 0, rateLimitedCount = 0\<rparr>"
            and en_e = "env_of_feed (\<lambda>_. [])" and url_e = "''https://x.com/u''"
            and w_e = empty_world and e_e = "invalid_url_error ''https://x.com/u''"
            and ?w_e1.0 = empty_world and rest_e = "[]"
            and c_e = "\<lparr>processedCount = 0, skippedCount = 0, rateLimitedCount = 0\<rparr>"
            and en = env_text_fault and tweetUrl = url_429 and w = empty_world
            and e = io_error_429 and ?w1.0 = ?W2 and userId = "''u''" and postId = "''429''"
            and urls = "[url_429]"]
       first_run rate_limited_try io_error_is_rate_limit url_429_ids post_url_ids f
       malformed_try done_before
  show ?thesis by (simp del: batch_loop.simps)
qed

text \<open>
  Claim C7 as stated fails twice. A post whose processing was rate-limited raises the
  skipped count and leaves the rate-limited count at 0; and a post already done and a
  malformed URL both give the same result \<open>false\<close>.
\<close>

theorem rate_limited_counted_as_skipped_counterexample:
  "processMultipleTweets env_text_fault [url_429] ''out'' 5000 empty_world =
     (Inr \<lparr>processedCount = 0, skippedCount = 1, rateLimitedCount = 0\<rparr>,
      \<lparr>fs = [(''out'', []), (''out/u'', [''429-rate-limited.txt''])],
       trace = [BatchStart [url_429], MkDir ''out'', MkDir ''out/u'', Goto url_429, ScrollBottom,
                WaitFor 2000, WaitFor 2000, WriteFile ''out/u/429-rate-limited.txt'']\<rparr>) \<and>
   fst (processTweetContent (env_of_feed (\<lambda>_. [])) post_url ''out'' (world_with [''1.txt''])) = Inr False \<and>
   fst (processTweetContent (env_of_feed (\<lambda>_. [])) ''https://x.com/u'' ''out'' empty_world) = Inr False"
proof -
  have a: "processTweetContent env_text_fault url_429 ''out'' \<lparr>fs = [], trace = [BatchStart [url_429]]\<rparr> =
     (Inr False,
      \<lparr>fs = [(''out'', []), (''out/u'', [''429-rate-limited.txt''])],
       trace = [BatchStart [url_429], MkDir ''out'', MkDir ''out/u'', Goto url_429, ScrollBottom,
                WaitFor 2000, WaitFor 2000, WriteFile ''out/u/429-rate-limited.txt'']\<rparr>)"
    by (simp add: run_defs url_429_ids env_text_fault_def io_error_is_rate_limit)
  have b: "processMultipleTweets env_text_fault [url_429] ''out'' 5000 empty_world =
     (Inr \<lparr>processedCount = 0, skippedCount = 1, rateLimitedCount = 0\<rparr>,
      \<lparr>fs = [(''out'', []), (''out/u'', [''429-rate-limited.txt''])],
       trace = [BatchStart [url_429], MkDir ''out'', MkDir ''out/u'', Goto url_429, ScrollBottom,
                WaitFor 2000, WaitFor 2000, WriteFile ''out/u/429-rate-limited.txt'']\<rparr>)"
    by (simp add: processMultipleTweets_def emit_def empty_world_def a then_do_def catch_do_def)
  have c: "fst (processTweetContent (env_of_feed (\<lambda>_. [])) post_url ''out'' (world_with [''1.txt''])) = Inr False"
    by (simp add: run_defs post_url_ids world_with_def)
  have d: "fst (processTweetContent (env_of_feed (\<lambda>_. [])) ''https://x.com/u'' ''out'' empty_world) = Inr False"
    by (simp add: run_defs extractIds_at_def is_rate_limit_def invalid_url_error_def)
  from b c d show ?thesis by simp
qed

section \<open>Properties of the link set\<close>

lemma scroll_loop_invariant:
  assumes run: "scroll_loop en max_id limit dl out ls = Some ls'"
      and init: "I (st ls)"
      and step: "\<And>l. I (st l) \<Longrightarrow> \<not> fst (loop_body en limit dl out l) \<Longrightarrow>
                   I (st (snd (loop_body en limit dl out l)))"
      and brk: "\<And>l. I (st l) \<Longrightarrow> fst (loop_body en limit dl out l) \<Longrightarrow>
                   Q (st (snd (loop_body en limit dl out l)))"
      and fin: "\<And>s. I s \<Longrightarrow> Q s"
  shows "Q (st ls')"
proof -
  let ?P = "\<lambda>en' (m' :: nat) limit' dl' out' l y.
              en' = en \<and> limit' = limit \<and> dl' = dl \<and> out' = out \<longrightarrow> I (st l) \<longrightarrow> Q (st y)"
  have "?P en max_id limit dl out ls ls'"
  proof (rule scroll_loop.raw_induct [where P = ?P, OF _ run])
    fix loop en' m' limit' dl' out' l y
    assume IH: "\<And>a b c d e f y. loop a b c d e f = Some y \<Longrightarrow> ?P a b c d e f y"
       and eq: "(if loop_cond m' l
                 then let r = loop_body en' limit' dl' out' l
                      in if fst r then Some (snd r) else loop en' m' limit' dl' out' (snd r)
                 else Some l) = Some y"
    show "?P en' m' limit' dl' out' l y"
    proof (intro impI)
      assume same: "en' = en \<and> limit' = limit \<and> dl' = dl \<and> out' = out" and i: "I (st l)"
      let ?r = "loop_body en limit dl out l"
      show "Q (st y)"
      proof (cases "loop_cond m' l")
        case False
        with eq have "y = l" by simp
        with i fin show ?thesis by simp
      next
        case True
        show ?thesis
        proof (cases "fst ?r")
          case b: True
          with True eq same have "y = snd ?r" by (simp add: Let_def)
          with brk [OF i b] show ?thesis by simp
        next
          case nb: False
          with True eq same have "loop en m' limit dl out (snd ?r) = Some y"
            by (simp add: Let_def)
          from IH [OF this] step [OF i nb] show ?thesis by simp
        qed
      qed
    qed
  qed
  with init show ?thesis by simp
qed

lemma below_within: "below_limit limit s \<Longrightarrow> within_limit limit s"
  by (auto simp: below_limit_def within_limit_def)

lemma add_item_links:
  "item_href it \<notin> set (uniqueLinks s) \<Longrightarrow>
   uniqueLinks (add_item en dl out it s) = uniqueLinks s @ [item_href it]"
  by (simp add: add_item_def set_add_def Let_def)

lemma process_items_limit:
  "below_limit limit s \<Longrightarrow>
   (if fst (process_items en limit dl out its s) = - 1
    then within_limit limit (snd (process_items en limit dl out its s))
    else below_limit limit (snd (process_items en limit dl out its s)))"
proof (induction its arbitrary: s)
  case Nil
  then show ?case by simp
next
  case (Cons it its)
  show ?case
  proof (cases "item_href it \<noteq> [] \<and> item_href it \<notin> set (uniqueLinks s)")
    case False
    then have "process_items en limit dl out (it # its) s = process_items en limit dl out its s"
      by auto
    with Cons.IH [OF Cons.prems] show ?thesis by simp
  next
    case True
    let ?s2 = "add_item en dl out it s"
    have u: "uniqueLinks ?s2 = uniqueLinks s @ [item_href it]"
      using True by (simp add: add_item_links)
    have d: "distinct (uniqueLinks ?s2)"
      using True Cons.prems by (simp add: u below_limit_def)
    show ?thesis
    proof (cases "limit > 0 \<and> length (uniqueLinks ?s2) \<ge> limit")
      case lim: True
      have "process_items en limit dl out (it # its) s = (- 1, ?s2)"
        using True lim by (simp add: Let_def)
      moreover have "within_limit limit ?s2"
        using d Cons.prems lim by (auto simp: u within_limit_def below_limit_def)
      ultimately show ?thesis by simp
    next
      case nolim: False
      have eq: "process_items en limit dl out (it # its) s = process_items en limit dl out its ?s2"
        using True nolim by (auto simp: Let_def)
      have "below_limit limit ?s2"
        using d nolim by (auto simp: below_limit_def)
      from Cons.IH [OF this] eq show ?thesis by simp
    qed
  qed
qed

lemma process_items_extends:
  "\<exists>new. uniqueLinks (snd (process_items en limit dl out its s)) = uniqueLinks s @ new"
proof (induction its arbitrary: s)
  case Nil
  show ?case by simp
next
  case (Cons it its)
  show ?case
  proof (cases "item_href it \<noteq> [] \<and> item_href it \<notin> set (uniqueLinks s)")
    case False
    then have "process_items en limit dl out (it # its) s = process_items en limit dl out its s"
      by auto
    with Cons.IH [of s] show ?thesis by simp
  next
    case True
    let ?s2 = "add_item en dl out it s"
    have u: "uniqueLinks ?s2 = uniqueLinks s @ [item_href it]"
      using True by (simp add: add_item_links)
    show ?thesis
    proof (cases "limit > 0 \<and> length (uniqueLinks ?s2) \<ge> limit")
      case lim: True
      have "process_items en limit dl out (it # its) s = (- 1, ?s2)"
        using True lim by (simp add: Let_def)
      with u show ?thesis by simp
    next
      case nolim: False
      have eq: "process_items en limit dl out (it # its) s = process_items en limit dl out its ?s2"
        using True nolim by (auto simp: Let_def)
      from Cons.IH [of ?s2] obtain new where
        "uniqueLinks (snd (process_items en limit dl out its ?s2)) = uniqueLinks ?s2 @ new" by blast
      with eq u show ?thesis by simp
    qed
  qed
qed


lemma extractLinks_limit:
  assumes "below_limit limit s"
  shows "if fst (extractLinks en limit dl out s) = - 1
         then within_limit limit (snd (extractLinks en limit dl out s))
         else below_limit limit (snd (extractLinks en limit dl out s))"
proof -
  have "below_limit limit (s\<lparr>extracts := extracts s + 1\<rparr>)"
    using assms by (simp add: below_limit_def)
  then show ?thesis
    unfolding extractLinks_def by (rule process_items_limit)
qed

lemma extractLinks_extends:
  "\<exists>new. uniqueLinks (snd (extractLinks en limit dl out s)) = uniqueLinks s @ new"
proof -
  obtain new where "uniqueLinks (snd (process_items en limit dl out
                       (query_articles (feed en (extracts s))) (s\<lparr>extracts := extracts s + 1\<rparr>)))
                    = uniqueLinks (s\<lparr>extracts := extracts s + 1\<rparr>) @ new"
    using process_items_extends by blast
  then show ?thesis unfolding extractLinks_def by simp
qed

lemma loop_body_parts:
  "st (snd (loop_body en limit dl out l)) = snd (extractLinks en limit dl out (scrolled (st l)))"
  "fst (loop_body en limit dl out l) \<longleftrightarrow> fst (extractLinks en limit dl out (scrolled (st l))) = - 1"
  by (simp_all add: loop_body_def Let_def scrolled_def)

lemma below_limit_scrolled: "below_limit limit (scrolled s) = below_limit limit s"
  by (simp add: below_limit_def scrolled_def)

lemma scroll_loop_limit:
  assumes run: "scroll_loop en max_id limit dl out ls = Some ls'"
      and init: "below_limit limit (st ls)"
  shows "within_limit limit (st ls')"
proof (rule scroll_loop_invariant [OF run, where I = "below_limit limit"])
  show "below_limit limit (st ls)" by (rule init)
next
  fix l
  assume i: "below_limit limit (st l)" and nb: "\<not> fst (loop_body en limit dl out l)"
  from i have "below_limit limit (scrolled (st l))" by (simp add: below_limit_scrolled)
  from extractLinks_limit [OF this, of en dl out] nb
  show "below_limit limit (st (snd (loop_body en limit dl out l)))"
    by (simp add: loop_body_parts)
next
  fix l
  assume i: "below_limit limit (st l)" and b: "fst (loop_body en limit dl out l)"
  from i have "below_limit limit (scrolled (st l))" by (simp add: below_limit_scrolled)
  from extractLinks_limit [OF this, of en dl out] b
  show "within_limit limit (st (snd (loop_body en limit dl out l)))"
    by (simp add: loop_body_parts)
next
  fix s
  assume "below_limit limit s"
  then show "within_limit limit s" by (rule below_within)
qed

lemma inj_full_url: "inj_on full_url A"
  by (simp add: inj_on_def full_url_def)

lemma within_limit_links:
  assumes "within_limit limit s"
  shows "distinct (map full_url (uniqueLinks s))"
    and "limit \<noteq> 0 \<longrightarrow> length (map full_url (uniqueLinks s)) \<le> limit"
  using assms by (simp_all add: within_limit_def distinct_map inj_full_url)

lemma finalLinks_within:
  assumes "distinct xs" and "limit \<noteq> 0 \<longrightarrow> length xs \<le> limit"
  shows "distinct (finalLinks limit xs)" and "limit \<noteq> 0 \<longrightarrow> length (finalLinks limit xs) \<le> limit"
  using assms by (auto simp: finalLinks_def)

lemma finish_links:
  "finish en initial_url limit dl out s = (Inr links, w') \<Longrightarrow>
   links = finalLinks limit (map full_url (uniqueLinks s))"
proof -
  assume f: "finish en initial_url limit dl out s = (Inr links, w')"
  let ?links = "finalLinks limit (map full_url (uniqueLinks s))"
  let ?rem = "remainingLinks ?links (processedTweets s)"
  obtain c w1 where pm: "processMultipleTweets en ?rem out 5000 (wld s) = (Inr c, w1)"
    using processMultipleTweets_total by blast
  show ?thesis
  proof (cases "dl \<and> ?links \<noteq> []")
    case False
    with f show ?thesis by (auto simp: finish_def Let_def)
  next
    case True
    show ?thesis
    proof (cases "?rem \<noteq> []")
      case False
      with True f show ?thesis by (simp add: finish_def Let_def then_do_def)
    next
      case rem: True
      with True pm f show ?thesis by (simp add: finish_def Let_def then_do_def)
    qed
  qed
qed

lemma find_links_page_within:
  assumes run: "find_links_page en url max_id limit dl out fs0 = Some (Inr links, w')"
  shows "distinct links \<and> (limit \<noteq> 0 \<longrightarrow> length links \<le> limit)"
proof -
  let ?w0 = "emit (Goto url) \<lparr>fs = fs0, trace = []\<rparr>"
  obtain r w1 where iw: "initial_wait en ?w0 = (r, w1)"
    by (cases "initial_wait en ?w0") auto
  show ?thesis
  proof (cases r)
    case (Inl e)
    with iw run show ?thesis by (simp add: find_links_page_def close_page_def)
  next
    case (Inr u)
    let ?s0 = "\<lparr>uniqueLinks = [], foundIds = 0, processedTweets = [], extracts = 0, wld = w1\<rparr>"
    let ?x = "extractLinks en limit dl out ?s0"
    have b0: "below_limit limit ?s0" by (simp add: below_limit_def)
    note x = extractLinks_limit [OF b0, of en dl out]
    show ?thesis
    proof (cases "fst ?x = - 1")
      case True
      with iw Inr run have l: "links = map full_url (uniqueLinks (snd ?x))"
        by (simp add: find_links_page_def close_page_def Let_def)
      from x True have "within_limit limit (snd ?x)" by simp
      from within_limit_links [OF this] l show ?thesis by simp
    next
      case False
      let ?l0 = "\<lparr>st = snd ?x, previousSize = 0, sameCountIterations = 0, reachedBottom = False\<rparr>"
      from x False have b1: "below_limit limit (st ?l0)" by simp
      show ?thesis
      proof (cases "scroll_loop en max_id limit dl out ?l0")
        case None
        with False iw Inr run show ?thesis by (simp add: find_links_page_def Let_def)
      next
        case (Some ls)
        have w: "within_limit limit (st ls)"
          using Some b1 by (rule scroll_loop_limit)
        from Some False iw Inr run
        have "close_page (finish en url limit dl out (st ls)) = (Inr links, w')"
          by (simp add: find_links_page_def Let_def)
        then obtain w2 where "finish en url limit dl out (st ls) = (Inr links, w2)"
          by (cases "finish en url limit dl out (st ls)") (auto simp: close_page_def)
        then have "links = finalLinks limit (map full_url (uniqueLinks (st ls)))"
          by (rule finish_links)
        with finalLinks_within [OF within_limit_links [OF w]] show ?thesis by simp
      qed
    qed
  qed
qed

text \<open>
  Claim C2. The list that \<open>find_links\<close> returns has no duplicate, and when the limit is
  not zero it is no longer than the limit; every call of \<open>extractLinks\<close> leaves the link
  set as it was, with new links appended. Limits and counts are natural numbers, as the
  code documents them.
\<close>

theorem links_distinct_bounded_growing:
  "(find_links en url max_id limit dl out fs0 = Some (Inr links, w') \<longrightarrow>
      distinct links \<and> (limit \<noteq> 0 \<longrightarrow> length links \<le> limit)) \<and>
   (\<exists>new. uniqueLinks (snd (extractLinks en limit dl out s)) = uniqueLinks s @ new)"
  using find_links_page_within [OF find_links_returned, of en url max_id limit dl out fs0 links w']
        extractLinks_extends [of en limit dl out s]
  by blast

lemma two_of_three_run:
  "find_links (env_of_feed (\<lambda>_. [bare_article, bare_article, video_post, third_post]))
      ''https://x.com/u'' 0 2 False ''out'' [] =
     Some (Inr [''https://x.com/u/status/1'', ''https://x.com/u/status/2''],
           \<lparr>fs = [], trace = [Goto ''https://x.com/u'', ClosePage]\<rparr>)"
  by (simp add: discovery_defs third_post_def eval_nat_numeral)

theorem links_distinct_bounded_growing_witness:
  "find_links (env_of_feed (\<lambda>_. [bare_article, bare_article, video_post, third_post]))
      ''https://x.com/u'' 0 2 False ''out'' [] =
     Some (Inr [''https://x.com/u/status/1'', ''https://x.com/u/status/2''],
           \<lparr>fs = [], trace = [Goto ''https://x.com/u'', ClosePage]\<rparr>) \<and>
   distinct [''https://x.com/u/status/1'', ''https://x.com/u/status/2''] \<and>
   length [''https://x.com/u/status/1'', ''https://x.com/u/status/2''] \<le> 2"
  using links_distinct_bounded_growing
          [of "env_of_feed (\<lambda>_. [bare_article, bare_article, video_post, third_post])"
              "''https://x.com/u''" 0 2 False "''out''" "[]"
              "[''https://x.com/u/status/1'', ''https://x.com/u/status/2'']"
              "\<lparr>fs = [], trace = [Goto ''https://x.com/u'', ClosePage]\<rparr>"]
        two_of_three_run
  by simp

section \<open>Properties of the inline save and the hand-over\<close>

lemma adds_plain_refl: "adds_plain w w"
  by (simp add: adds_plain_def)

lemma adds_plain_trans: "adds_plain w w1 \<Longrightarrow> adds_plain w1 w2 \<Longrightarrow> adds_plain w w2"
  by (auto simp: adds_plain_def)

lemma adds_plain_emit: "plain ev \<Longrightarrow> adds_plain w (emit ev w)"
  by (simp add: adds_plain_def emit_def)

lemma adds_plain_emit_after: "plain ev \<Longrightarrow> adds_plain w w1 \<Longrightarrow> adds_plain w (emit ev w1)"
  using adds_plain_trans adds_plain_emit by blast

lemma adds_plain_fs: "adds_plain w (w\<lparr>fs := f\<rparr>)"
  by (simp add: adds_plain_def)

lemma adds_plain_then_do:
  assumes "adds_plain w (snd m)" and "\<And>a w1. adds_plain w1 (snd (f a w1))"
  shows "adds_plain w (snd (then_do m f))"
proof (cases m)
  case (Pair r w1)
  show ?thesis
  proof (cases r)
    case (Inl e)
    with Pair assms(1) show ?thesis by (simp add: then_do_def)
  next
    case (Inr a)
    with Pair have "snd (then_do m f) = snd (f a w1)" by (simp add: then_do_def)
    with assms(1) assms(2) [of w1 a] Pair show ?thesis
      by (auto intro: adds_plain_trans)
  qed
qed

lemma adds_plain_catch_do:
  assumes "adds_plain w (snd m)" and "\<And>e w1. adds_plain w1 (snd (h e w1))"
  shows "adds_plain w (snd (catch_do m h))"
proof (cases m)
  case (Pair r w1)
  show ?thesis
  proof (cases r)
    case (Inr a)
    with Pair assms(1) show ?thesis by (simp add: catch_do_def)
  next
    case (Inl e)
    with Pair have "snd (catch_do m h) = snd (h e w1)" by (simp add: catch_do_def)
    with assms(1) assms(2) [of w1 e] Pair show ?thesis
      by (auto intro: adds_plain_trans)
  qed
qed

lemma mkdirSync_plain: "adds_plain w (snd (mkdirSync en d w))"
  by (auto simp: mkdirSync_def adds_plain_def emit_def split: option.splits)

lemma writeFileSync_plain: "adds_plain w (snd (writeFileSync en d name w))"
  by (auto simp: writeFileSync_def adds_plain_def emit_def split: option.splits)

lemma axios_get_plain: "adds_plain w (snd (axios_get en url w))"
  by (auto simp: axios_get_def adds_plain_def emit_def split: http_result.splits)

lemma downloadFile_plain: "adds_plain w (snd (downloadFile en url d name w))"
  by (auto simp: downloadFile_def adds_plain_def emit_def split: http_result.splits)

lemma save_images_plain: "adds_plain w (snd (save_images en postId userDir i urls w))"
proof (induction urls arbitrary: i w)
  case Nil
  show ?case by (simp add: adds_plain_refl)
next
  case (Cons url urls)
  show ?case
    unfolding save_images.simps Let_def
  proof (rule adds_plain_then_do)
    show "adds_plain w (snd (axios_get en url w))" by (rule axios_get_plain)
  next
    fix a w1
    show "adds_plain w1
           (snd (then_do
                  (writeFileSync en userDir
                    (postId @ ''-'' @ show_nat (i + 1) @ ''.'' @
                       (if js_includes url ''.png'' then ''png'' else ''jpg'')) w1)
                  (\<lambda>_ w2. save_images en postId userDir (i + 1) urls w2)))"
      by (rule adds_plain_then_do) (rule writeFileSync_plain, rule Cons.IH)
  qed
qed

lemma maybe_mkdir_plain:
  "adds_plain w (snd (if c then mkdirSync en d w else (Inr (), w)))"
  by (simp add: mkdirSync_plain adds_plain_refl)

lemma saveSimpleContent_plain:
  "adds_plain w (snd (saveSimpleContent en href content_text imageUrls outputDir w))"
proof (cases "length (split_slash href) < 4")
  case True
  then show ?thesis by (simp add: saveSimpleContent_def catch_do_def adds_plain_refl)
next
  case False
  have "adds_plain w2 (snd (if content_text \<noteq> [] then writeFileSync en d name w2 else (Inr (), w2)))"
    for w2 d name
    by (simp add: writeFileSync_plain adds_plain_refl)
  then show ?thesis
    using False unfolding saveSimpleContent_def Let_def
    by (simp only: if_False)
       (intro adds_plain_catch_do adds_plain_then_do maybe_mkdir_plain save_images_plain;
        simp add: adds_plain_refl)
qed


lemma plain_absent:
  assumes "list_all plain evs"
  shows "DirectSave h \<notin> set evs" and "BatchStart urls \<notin> set evs"
  using assms by (auto simp: list_all_iff)

lemma saves_marked_plain:
  assumes "saves_marked s" and "adds_plain (wld s) w'"
  shows "saves_marked (s\<lparr>wld := w'\<rparr>)"
proof -
  from assms(2) obtain evs where t: "trace w' = trace (wld s) @ evs" and p: "list_all plain evs"
    by (auto simp: adds_plain_def)
  from assms(1) plain_absent [OF p] show ?thesis
    by (auto simp: saves_marked_def t)
qed

lemma add_item_marked:
  assumes "saves_marked s"
  shows "saves_marked (add_item en dl out it s)"
proof (cases "dl \<and> item_simple it")
  case False
  with assms show ?thesis by (auto simp: add_item_def Let_def saves_marked_def)
next
  case True
  let ?w1 = "emit (DirectSave (item_href it)) (wld s)"
  let ?w2 = "snd (saveSimpleContent en (item_href it) (item_text it) (item_images it) out ?w1)"
  have "adds_plain ?w1 ?w2" by (rule saveSimpleContent_plain)
  then obtain evs where t: "trace ?w2 = trace (wld s) @ DirectSave (item_href it) # evs"
      and p: "list_all plain evs"
    by (auto simp: adds_plain_def emit_def)
  have w: "wld (add_item en dl out it s) = ?w2"
   and pr: "processedTweets (add_item en dl out it s) = set_add (processedTweets s) (item_href it)"
    using True by (simp_all add: add_item_def Let_def)
  from assms plain_absent [OF p] show ?thesis
    by (auto simp: saves_marked_def w pr t set_add_def)
qed

lemma process_items_marked:
  "saves_marked s \<Longrightarrow> saves_marked (snd (process_items en limit dl out its s))"
proof (induction its arbitrary: s)
  case Nil
  then show ?case by simp
next
  case (Cons it its)
  from Cons.prems have a: "saves_marked (add_item en dl out it s)" by (rule add_item_marked)
  from Cons.IH [OF a] Cons.IH [OF Cons.prems] a show ?case
    by (simp add: Let_def)
qed

lemma extractLinks_marked:
  assumes "saves_marked s"
  shows "saves_marked (snd (extractLinks en limit dl out s))"
proof -
  from assms have "saves_marked (s\<lparr>extracts := extracts s + 1\<rparr>)"
    by (simp add: saves_marked_def)
  then show ?thesis unfolding extractLinks_def by (rule process_items_marked)
qed

lemma scrolled_marked: "saves_marked s \<Longrightarrow> saves_marked (scrolled s)"
  unfolding scrolled_def
  by (rule saves_marked_plain) (simp_all add: adds_plain_def emit_def)

lemma scroll_loop_marked:
  assumes run: "scroll_loop en max_id limit dl out ls = Some ls'"
      and init: "saves_marked (st ls)"
  shows "saves_marked (st ls')"
proof (rule scroll_loop_invariant [OF run, where I = saves_marked])
  show "saves_marked (st ls)" by (rule init)
next
  fix l :: loop_state
  assume "saves_marked (st l)"
  then show "saves_marked (st (snd (loop_body en limit dl out l)))"
    by (simp add: loop_body_parts extractLinks_marked scrolled_marked)
next
  fix l :: loop_state
  assume "saves_marked (st l)"
  then show "saves_marked (st (snd (loop_body en limit dl out l)))"
    by (simp add: loop_body_parts extractLinks_marked scrolled_marked)
next
  fix s :: scrape
  assume "saves_marked s"
  then show "saves_marked s" .
qed

lemma wait_for_articles_plain: "adds_plain w (snd (wait_for_articles en n i w))"
proof (induction n arbitrary: i w)
  case 0
  show ?case by (simp add: adds_plain_refl)
next
  case (Suc n)
  have "adds_plain w (emit ScrollNudge (emit (WaitFor RETRY_DELAY) w))"
    by (simp add: adds_plain_def emit_def)
  with Suc.IH [of "emit ScrollNudge (emit (WaitFor RETRY_DELAY) w)" "i + 1"]
  show ?case by (auto simp: adds_plain_refl intro: adds_plain_trans)
qed

lemma initial_wait_plain: "adds_plain w (snd (initial_wait en w))"
  unfolding initial_wait_def
proof (rule adds_plain_catch_do)
  show "adds_plain w (snd (wait_for_articles en MAX_RETRIES 0 w))"
    by (rule wait_for_articles_plain)
next
  fix e :: js_error and w1
  show "adds_plain w1
          (snd (Inl no_content_error :: js_error + unit, emit (Screenshot ''error-screenshot.png'') w1))"
    by (simp add: adds_plain_def emit_def)
qed

lemma ensureOutputDir_plain: "adds_plain w (snd (ensureOutputDir en outputDir userId w))"
  unfolding ensureOutputDir_def Let_def
  by (intro adds_plain_then_do maybe_mkdir_plain) (simp add: adds_plain_refl)

lemma extractIds_plain: "adds_plain w (snd (extractIds url w))"
  by (simp add: extractIds_def adds_plain_refl split: option.splits)

lemma foldl_waits_plain: "adds_plain w (foldl (\<lambda>v _. emit (WaitFor ms) v) w xs)"
proof (induction xs arbitrary: w)
  case Nil
  show ?case by (simp add: adds_plain_refl)
next
  case (Cons x xs)
  have "adds_plain w (emit (WaitFor ms) w)" by (simp add: adds_plain_emit)
  with Cons.IH [of "emit (WaitFor ms) w"] show ?case
    by (auto intro: adds_plain_trans)
qed

lemma extractAndSaveText_plain: "adds_plain w (snd (extractAndSaveText en view d name w))"
proof -
  let ?w1 = "emit (WaitFor 2000) (emit ScrollBottom w)"
  let ?w2 = "foldl (\<lambda>v _. emit (WaitFor 1500) v) ?w1 [0..<min 3 (more_buttons view)]"
  let ?w3 = "emit (WaitFor 2000) ?w2"
  have 1: "adds_plain w ?w1" by (simp add: adds_plain_def emit_def)
  have 2: "adds_plain ?w1 ?w2" by (rule foldl_waits_plain)
  have 3: "adds_plain ?w2 ?w3" by (simp add: adds_plain_emit)
  have 4: "adds_plain w ?w3" using 1 2 3 by (blast intro: adds_plain_trans)
  have 5: "adds_plain w (snd (writeFileSync en d name ?w3))"
    using 4 writeFileSync_plain by (rule adds_plain_trans)
  have "adds_plain w (snd (if text_ready view then writeFileSync en d name ?w3 else (Inl timeout_error, w)))"
    using 5 by (simp add: adds_plain_refl)
  then show ?thesis
    unfolding extractAndSaveText_def Let_def
    by (rule adds_plain_catch_do) (rule writeFileSync_plain)
qed

lemma download_images_plain: "adds_plain w (snd (download_images en postId d i urls w))"
proof (induction urls arbitrary: i w)
  case Nil
  show ?case by (simp add: adds_plain_refl)
next
  case (Cons url urls)
  show ?case
    unfolding download_images.simps
    by (rule adds_plain_then_do) (rule downloadFile_plain, rule Cons.IH)
qed

lemma extractAndDownloadImages_plain:
  "adds_plain w (snd (extractAndDownloadImages en view postId d w))"
proof -
  have "adds_plain w (snd (if images_ready view
          then download_images en postId d 0 urls w else (Inl timeout_error, w)))" for urls
    by (simp add: download_images_plain adds_plain_refl)
  then show ?thesis
    unfolding extractAndDownloadImages_def Let_def
    by (rule adds_plain_catch_do) (simp add: adds_plain_refl)
qed

lemma extractAndDownloadVideos_plain:
  "adds_plain w (snd (extractAndDownloadVideos en view postId d w))"
proof -
  let ?shot = "postId @ ''-video-player.png''"
  let ?w1 = "if screenshot_ok view
             then emit (Screenshot (path_join d ?shot)) (w\<lparr>fs := add_entry (fs w) d ?shot\<rparr>)
             else w"
  have 1: "adds_plain w ?w1" by (simp add: adds_plain_def emit_def)
  have 2: "adds_plain w (snd (writeFileSync en d (postId @ ''-video-info.txt'') ?w1))"
    using 1 writeFileSync_plain by (rule adds_plain_trans)
  have "adds_plain w (snd (if video_ready view then
          (if video_present view then writeFileSync en d (postId @ ''-video-info.txt'') ?w1
           else (Inr (), w))
        else (Inl timeout_error, w)))"
    using 2 by (simp add: adds_plain_refl)
  then show ?thesis
    unfolding extractAndDownloadVideos_def Let_def
    by (rule adds_plain_catch_do) (rule writeFileSync_plain)
qed

lemma fetch_content_plain: "adds_plain w (snd (fetch_content en tweetUrl userDir postId w))"
proof -
  have g: "adds_plain w (emit (Goto tweetUrl) w)" by (simp add: adds_plain_emit)
  have "adds_plain (emit (Goto tweetUrl) w) (snd (fetch_content en tweetUrl userDir postId w))"
    unfolding fetch_content_def Let_def
    by (intro adds_plain_then_do extractAndSaveText_plain extractAndDownloadImages_plain
          extractAndDownloadVideos_plain) (simp add: adds_plain_refl)
  with g show ?thesis by (rule adds_plain_trans)
qed

lemma processTweetContent_try_plain:
  "adds_plain w (snd (processTweetContent_try en tweetUrl outputDir w))"
  unfolding processTweetContent_try_def
proof (rule adds_plain_then_do)
  show "adds_plain w (snd (extractIds tweetUrl w))" by (rule extractIds_plain)
next
  fix ids :: "string \<times> string" and w1
  obtain userId postId where ids: "ids = (userId, postId)" by (cases ids) auto
  have "adds_plain w1
          (snd (then_do (ensureOutputDir en outputDir userId w1)
                  (\<lambda>userDir w2.
                     if already_processed (fs w2) userDir postId then (Inr False, w2)
                     else fetch_content en tweetUrl userDir postId w2)))"
    by (rule adds_plain_then_do) (simp_all add: ensureOutputDir_plain fetch_content_plain adds_plain_refl)
  then show "adds_plain w1
          (snd ((case ids of (userId, postId) \<Rightarrow> \<lambda>w1.
                  then_do (ensureOutputDir en outputDir userId w1)
                    (\<lambda>userDir w2.
                       if already_processed (fs w2) userDir postId then (Inr False, w2)
                       else fetch_content en tweetUrl userDir postId w2)) w1))"
    by (simp add: ids)
qed

lemma processTweetContent_catch_plain:
  "adds_plain w (snd (processTweetContent_catch en tweetUrl outputDir e w))"
proof (cases "is_rate_limit e")
  case False
  then show ?thesis by (simp add: processTweetContent_catch_def adds_plain_refl)
next
  case True
  have "adds_plain w
          (snd (then_do (extractIds tweetUrl w)
            (\<lambda>(userId, postId) w1.
               then_do (ensureOutputDir en outputDir userId w1)
                 (\<lambda>userDir w2.
                    then_do (writeFileSync en userDir (postId @ ''-rate-limited.txt'') w2)
                      (\<lambda>_ w3. (Inr False, w3))))))"
  proof (rule adds_plain_then_do)
    show "adds_plain w (snd (extractIds tweetUrl w))" by (rule extractIds_plain)
  next
    fix ids :: "string \<times> string" and w1
    obtain userId postId where ids: "ids = (userId, postId)" by (cases ids) auto
    have "adds_plain w1
            (snd (then_do (ensureOutputDir en outputDir userId w1)
                 (\<lambda>userDir w2.
                    then_do (writeFileSync en userDir (postId @ ''-rate-limited.txt'') w2)
                      (\<lambda>_ w3. (Inr False, w3)))))"
      by (intro adds_plain_then_do ensureOutputDir_plain writeFileSync_plain)
         (simp add: adds_plain_refl)
    then show "adds_plain w1
            (snd ((case ids of (userId, postId) \<Rightarrow> \<lambda>w1.
               then_do (ensureOutputDir en outputDir userId w1)
                 (\<lambda>userDir w2.
                    then_do (writeFileSync en userDir (postId @ ''-rate-limited.txt'') w2)
                      (\<lambda>_ w3. (Inr False, w3)))) w1))"
      by (simp add: ids)
  qed
  with True show ?thesis by (simp add: processTweetContent_catch_def)
qed

lemma processTweetContent_plain:
  "adds_plain w (snd (processTweetContent en tweetUrl outputDir w))"
  unfolding processTweetContent_def
  by (rule adds_plain_catch_do) (rule processTweetContent_try_plain, rule processTweetContent_catch_plain)


lemma batch_loop_plain: "adds_plain w (snd (batch_loop en outputDir sleepMs urls c w))"
proof (induction urls arbitrary: c w)
  case Nil
  show ?case by (simp add: adds_plain_refl)
next
  case (Cons url rest)
  show ?case
    unfolding batch_loop.simps Let_def
  proof (intro adds_plain_then_do adds_plain_catch_do)
    show "adds_plain w (snd (processTweetContent en url outputDir w))"
      by (rule processTweetContent_plain)
  next
    fix wasProcessed w1
    show "adds_plain w1
            (snd (Inr (if wasProcessed then c\<lparr>processedCount := processedCount c + 1\<rparr>
                       else c\<lparr>skippedCount := skippedCount c + 1\<rparr>) :: js_error + stats,
                  if rest \<noteq> [] \<and> wasProcessed then emit (WaitFor sleepMs) w1 else w1))"
      by (simp add: adds_plain_refl adds_plain_emit)
  next
    fix e w1
    show "adds_plain w1
            (snd (Inr (if is_rate_limit e then c\<lparr>rateLimitedCount := rateLimitedCount c + 1\<rparr>
                       else c\<lparr>skippedCount := skippedCount c + 1\<rparr>) :: js_error + stats,
                  if rest \<noteq> [] then emit (WaitFor sleepMs) w1 else w1))"
      by (simp add: adds_plain_refl adds_plain_emit)
  next
    fix c1 w2
    show "adds_plain w2 (snd (batch_loop en outputDir sleepMs rest c1 w2))"
      by (rule Cons.IH)
  qed
qed

lemma processMultipleTweets_trace:
  "\<exists>evs. trace (snd (processMultipleTweets en urls outputDir sleepMs w)) =
            trace w @ BatchStart urls # evs \<and> list_all plain evs"
proof -
  let ?c0 = "\<lparr>processedCount = 0, skippedCount = 0, rateLimitedCount = 0\<rparr>"
  let ?w0 = "emit (BatchStart urls) w"
  obtain c w' where b: "batch_loop en outputDir sleepMs urls ?c0 ?w0 = (Inr c, w')"
    using batch_loop_total by blast
  have "adds_plain ?w0 (snd (batch_loop en outputDir sleepMs urls ?c0 ?w0))"
    by (rule batch_loop_plain)
  with b obtain evs where "trace w' = trace ?w0 @ evs" and "list_all plain evs"
    by (auto simp: adds_plain_def)
  with b show ?thesis
    by (simp add: processMultipleTweets_def catch_do_def emit_def)
qed

lemma remove_first_full_url: "remove_first (full_url h) ''https://x.com'' = h"
  by (simp add: full_url_def)

lemma processed_not_remaining:
  "h \<in> set processed \<Longrightarrow> full_url h \<notin> set (remainingLinks links processed)"
  by (simp add: remainingLinks_def remove_first_full_url)

lemma saves_marked_handover: "saves_marked s \<Longrightarrow> handover_ok (wld s)"
  by (simp add: saves_marked_def handover_ok_def)

lemma handover_ok_emit: "plain ev \<Longrightarrow> handover_ok w \<Longrightarrow> handover_ok (emit ev w)"
  by (cases ev) (auto simp: handover_ok_def emit_def)

lemma finish_handover:
  assumes m: "saves_marked s"
  shows "handover_ok (snd (finish en initial_url limit dl out s))"
proof -
  let ?links = "finalLinks limit (map full_url (uniqueLinks s))"
  let ?rem = "remainingLinks ?links (processedTweets s)"
  show ?thesis
  proof (cases "dl \<and> ?links \<noteq> []")
    case False
    with saves_marked_handover [OF m] show ?thesis by (auto simp: finish_def Let_def)
  next
    case True
    show ?thesis
    proof (cases "?rem \<noteq> []")
      case False
      with True have "snd (finish en initial_url limit dl out s) = emit (Goto initial_url) (wld s)"
        by (simp add: finish_def Let_def then_do_def)
      with saves_marked_handover [OF m] show ?thesis by (simp add: handover_ok_emit)
    next
      case rem: True
      obtain c w1 where pm: "processMultipleTweets en ?rem out 5000 (wld s) = (Inr c, w1)"
        using processMultipleTweets_total by blast
      obtain evs where t: "trace w1 = trace (wld s) @ BatchStart ?rem # evs"
          and p: "list_all plain evs"
        using processMultipleTweets_trace [of en ?rem out 5000 "wld s"] pm by auto
      have f: "snd (finish en initial_url limit dl out s) = emit (Goto initial_url) w1"
        using True rem pm by (simp add: finish_def Let_def then_do_def)
      have "handover_ok w1"
        unfolding handover_ok_def
      proof (intro allI impI)
        fix h urls
        assume d: "DirectSave h \<in> set (trace w1)" and b: "BatchStart urls \<in> set (trace w1)"
        from d plain_absent(1) [OF p] have "DirectSave h \<in> set (trace (wld s))"
          by (auto simp: t)
        with m have hp: "h \<in> set (processedTweets s)" by (simp add: saves_marked_def)
        from b plain_absent(2) [OF p] m have "urls = ?rem"
          by (auto simp: t saves_marked_def)
        with hp show "full_url h \<notin> set urls" by (simp add: processed_not_remaining)
      qed
      with f show ?thesis by (simp add: handover_ok_emit)
    qed
  qed
qed

lemma find_links_page_handover:
  assumes run: "find_links_page en url max_id limit dl out fs0 = Some (r, w')"
  shows "handover_ok w'"
proof -
  let ?w0 = "emit (Goto url) \<lparr>fs = fs0, trace = []\<rparr>"
  obtain r1 w1 where iw: "initial_wait en ?w0 = (r1, w1)"
    by (cases "initial_wait en ?w0") auto
  have "adds_plain ?w0 w1" using initial_wait_plain [of ?w0 en] iw by simp
  then obtain evs where t1: "trace w1 = Goto url # evs" and p1: "list_all plain evs"
    by (auto simp: adds_plain_def emit_def)
  let ?s0 = "\<lparr>uniqueLinks = [], foundIds = 0, processedTweets = [], extracts = 0, wld = w1\<rparr>"
  have m0: "saves_marked ?s0"
    using plain_absent [OF p1] by (auto simp: saves_marked_def t1)
  show ?thesis
  proof (cases r1)
    case (Inl e)
    with iw run have "w' = emit ClosePage w1" by (simp add: find_links_page_def close_page_def)
    with saves_marked_handover [OF m0] show ?thesis by (simp add: handover_ok_emit)
  next
    case (Inr u)
    let ?x = "extractLinks en limit dl out ?s0"
    have mx: "saves_marked (snd ?x)" using m0 by (rule extractLinks_marked)
    show ?thesis
    proof (cases "fst ?x = - 1")
      case True
      with iw Inr run have "w' = emit ClosePage (wld (snd ?x))"
        by (simp add: find_links_page_def close_page_def Let_def)
      with saves_marked_handover [OF mx] show ?thesis by (simp add: handover_ok_emit)
    next
      case False
      let ?l0 = "\<lparr>st = snd ?x, previousSize = 0, sameCountIterations = 0, reachedBottom = False\<rparr>"
      show ?thesis
      proof (cases "scroll_loop en max_id limit dl out ?l0")
        case None
        with False iw Inr run show ?thesis by (simp add: find_links_page_def Let_def)
      next
        case (Some ls)
        have "saves_marked (st ls)"
          using Some by (rule scroll_loop_marked) (simp add: mx)
        then have "handover_ok (snd (finish en url limit dl out (st ls)))"
          by (rule finish_handover)
        moreover from Some False iw Inr run
        have "w' = emit ClosePage (snd (finish en url limit dl out (st ls)))"
          by (simp add: find_links_page_def Let_def close_page_def)
        ultimately show ?thesis by (simp add: handover_ok_emit)
      qed
    qed
  qed
qed

lemma add_item_simple_saved:
  assumes "item_simple it"
  shows "item_href it \<in> set (processedTweets (add_item en True out it s))"
    and "DirectSave (item_href it) \<in> set (trace (wld (add_item en True out it s)))"
proof -
  let ?w1 = "emit (DirectSave (item_href it)) (wld s)"
  let ?w2 = "snd (saveSimpleContent en (item_href it) (item_text it) (item_images it) out ?w1)"
  have "adds_plain ?w1 ?w2" by (rule saveSimpleContent_plain)
  then obtain evs where t: "trace ?w2 = trace (wld s) @ DirectSave (item_href it) # evs"
    by (auto simp: adds_plain_def emit_def)
  have w: "wld (add_item en True out it s) = ?w2"
    using assms by (simp add: add_item_def Let_def)
  show "item_href it \<in> set (processedTweets (add_item en True out it s))"
    using assms by (simp add: add_item_def Let_def set_add_def)
  show "DirectSave (item_href it) \<in> set (trace (wld (add_item en True out it s)))"
    by (simp add: w t)
qed

lemma add_item_keeps:
  "set (processedTweets s) \<subseteq> set (processedTweets (add_item en dl out it s))"
  "set (trace (wld s)) \<subseteq> set (trace (wld (add_item en dl out it s)))"
proof -
  show "set (processedTweets s) \<subseteq> set (processedTweets (add_item en dl out it s))"
    by (auto simp: add_item_def Let_def set_add_def)
  let ?w1 = "emit (DirectSave (item_href it)) (wld s)"
  let ?w2 = "snd (saveSimpleContent en (item_href it) (item_text it) (item_images it) out ?w1)"
  have "adds_plain ?w1 ?w2" by (rule saveSimpleContent_plain)
  then obtain evs where t: "trace ?w2 = trace (wld s) @ DirectSave (item_href it) # evs"
    by (auto simp: adds_plain_def emit_def)
  show "set (trace (wld s)) \<subseteq> set (trace (wld (add_item en dl out it s)))"
    using t by (auto simp: add_item_def Let_def)
qed

lemma process_items_keeps:
  "set (processedTweets s) \<subseteq> set (processedTweets (snd (process_items en limit dl out its s))) \<and>
   set (trace (wld s)) \<subseteq> set (trace (wld (snd (process_items en limit dl out its s))))"
proof (induction its arbitrary: s)
  case Nil
  show ?case by simp
next
  case (Cons it its)
  from Cons.IH [of s] Cons.IH [of "add_item en dl out it s"] add_item_keeps [of s en dl out it]
  show ?case by (simp add: Let_def) blast
qed

lemma find_links_handover:
  assumes run: "find_links en url max_id limit dl out fs0 = Some (r, w')"
  shows "handover_ok w'"
proof (cases "session_fault en = None \<and> page_fault en = None")
  case True
  with run have "find_links_page en url max_id limit dl out fs0 = Some (r, w')"
    by (simp add: find_links_cases)
  then show ?thesis by (rule find_links_page_handover)
next
  case False
  with run have "w' = \<lparr>fs = fs0, trace = []\<rparr>"
    by (auto simp: find_links_cases split: option.splits)
  then show ?thesis by (simp add: handover_ok_def)
qed

lemma saveSimpleContent_returns:
  "\<exists>saved w1. saveSimpleContent en href content_text imageUrls out w = (Inr saved, w1)"
proof -
  have "\<exists>saved w1. catch_do m (\<lambda>e w'. (Inr False, w')) = (Inr saved, w1)" for m :: "bool outcome"
  proof (cases m)
    case (Pair r w0)
    then show ?thesis by (cases r) (auto simp: catch_do_def)
  qed
  then show ?thesis unfolding saveSimpleContent_def by blast
qed

text \<open>
  Claim C10. With download enabled, a new item that is simple is in the processed set
  when \<open>extractLinks\<close> has handled it, and its inline save was announced, whatever
  \<open>saveSimpleContent\<close> returned or wrote; \<open>saveSimpleContent\<close> itself never raises,
  it returns \<open>true\<close> or \<open>false\<close>. In every run of \<open>find_links\<close>, no list handed
  to \<open>processMultipleTweets\<close> holds the address of such a post. The witness is a run
  where the simple post has no text and no image: it is returned, nothing is written for
  it, and only the other post is handed over.
\<close>

theorem simple_posts_never_batched:
  "(item_href it \<noteq> [] \<and> item_href it \<notin> set (uniqueLinks s) \<and> item_simple it \<longrightarrow>
      item_href it \<in> set (processedTweets (snd (process_items en limit True out (it # its) s))) \<and>
      DirectSave (item_href it)
        \<in> set (trace (wld (snd (process_items en limit True out (it # its) s))))) \<and>
   (find_links en url max_id limit dl out fs0 = Some (r, w') \<and>
    DirectSave h \<in> set (trace w') \<and> BatchStart urls \<in> set (trace w')
      \<longrightarrow> full_url h \<notin> set urls) \<and>
   (\<exists>saved w1. saveSimpleContent en href content_text imageUrls out w = (Inr saved, w1))"
proof (intro conjI impI)
  show "\<exists>saved w1. saveSimpleContent en href content_text imageUrls out w = (Inr saved, w1)"
    by (rule saveSimpleContent_returns)
next
  assume a: "item_href it \<noteq> [] \<and> item_href it \<notin> set (uniqueLinks s) \<and> item_simple it"
  let ?s2 = "add_item en True out it s"
  let ?res = "snd (process_items en limit True out (it # its) s)"
  have "?res = ?s2 \<or> ?res = snd (process_items en limit True out its ?s2)"
    using a by (simp add: Let_def)
  then have k: "set (processedTweets ?s2) \<subseteq> set (processedTweets ?res) \<and>
                set (trace (wld ?s2)) \<subseteq> set (trace (wld ?res))"
    using process_items_keeps [of ?s2 en limit True out its] by auto
  from a have "item_simple it" by simp
  from add_item_simple_saved [OF this, of en out s] k
  show "item_href it \<in> set (processedTweets ?res)"
   and "DirectSave (item_href it) \<in> set (trace (wld ?res))"
    by auto
next
  assume b: "find_links en url max_id limit dl out fs0 = Some (r, w') \<and>
    DirectSave h \<in> set (trace w') \<and> BatchStart urls \<in> set (trace w')"
  then have "handover_ok w'" using find_links_handover by blast
  with b show "full_url h \<notin> set urls" by (simp add: handover_ok_def)
qed

lemma silent_item:
  "query_articles [silent_post, video_post] =
     [\<lparr>item_href = ''/u/status/1'', item_simple = True, item_text = [], item_images = []\<rparr>,
      \<lparr>item_href = ''/u/status/2'', item_simple = False, item_text = ''hello'', item_images = []\<rparr>]"
  by (simp add: query_articles_def item_of_def silent_post_def video_post_def bare_article_def
        isSimpleTweet_def hasVideo_def hasPoll_def hasCard_def hasShowMore_def)

lemma silent_saved:
  "saveSimpleContent (env_of_feed f) ''/u/status/1'' [] [] ''out'' \<lparr>fs = [], trace = tr\<rparr> =
     (Inr True, \<lparr>fs = [(''out'', []), (''out/u'', [])], trace = tr @ [MkDir ''out'', MkDir ''out/u'']\<rparr>)"
  by (simp add: saveSimpleContent_def catch_do_def then_do_def mkdirSync_def emit_def
        dir_exists_def path_join_def readdir_def env_of_feed_def Let_def)

lemma video_post_fetched_later:
  "processTweetContent (env_of_feed f) ''https://x.com/u/status/2'' ''out''
      \<lparr>fs = [(''out'', []), (''out/u'', [])], trace = tr\<rparr> =
     (Inr True,
      \<lparr>fs = [(''out'', []), (''out/u'', [''2.txt''])],
       trace = tr @ [Goto ''https://x.com/u/status/2'',
                     ScrollBottom, WaitFor 2000, WaitFor 2000, WriteFile ''out/u/2.txt'']\<rparr>)"
  by (simp add: run_defs extractIds_at_def is_digit_def)

lemma video_post_batch_later:
  "processMultipleTweets (env_of_feed f) [''https://x.com/u/status/2''] ''out'' 5000
      \<lparr>fs = [(''out'', []), (''out/u'', [])], trace = tr\<rparr> =
     (Inr \<lparr>processedCount = 1, skippedCount = 0, rateLimitedCount = 0\<rparr>,
      \<lparr>fs = [(''out'', []), (''out/u'', [''2.txt''])],
       trace = tr @ [BatchStart [''https://x.com/u/status/2''],
                     Goto ''https://x.com/u/status/2'',
                     ScrollBottom, WaitFor 2000, WaitFor 2000, WriteFile ''out/u/2.txt'']\<rparr>)"
  by (simp add: processMultipleTweets_def emit_def video_post_fetched_later then_do_def catch_do_def)

lemma silent_run:
  "find_links (env_of_feed (\<lambda>_. [silent_post, video_post])) ''https://x.com/u'' 0 0 True ''out'' [] =
     Some (Inr [''https://x.com/u/status/1'', ''https://x.com/u/status/2''],
       \<lparr>fs = [(''out'', []), (''out/u'', [''2.txt''])],
        trace = [Goto ''https://x.com/u'', DirectSave ''/u/status/1'', MkDir ''out'', MkDir ''out/u'',
                 ScrollViewport, WaitFor 1500, ScrollViewport, WaitFor 1500,
                 ScrollViewport, WaitFor 1500, ScrollViewport, WaitFor 1500,
                 BatchStart [''https://x.com/u/status/2''],
                 Goto ''https://x.com/u/status/2'', ScrollBottom, WaitFor 2000,
                 WaitFor 2000, WriteFile ''out/u/2.txt'', Goto ''https://x.com/u'', ClosePage]\<rparr>)"
  by (simp add: find_links_env_of_feed find_links_page_def initial_wait_def MAX_RETRIES_def catch_do_def then_do_def emit_def
        close_page_def extractLinks_def add_item_def set_add_def full_url_def loop_cond_def
        loop_body_def finish_def finalLinks_def remainingLinks_def eval_nat_numeral
        scroll_loop.simps env_of_feed_fields Let_def silent_item silent_saved
        video_post_batch_later)

theorem simple_posts_never_batched_witness:
  "find_links (env_of_feed (\<lambda>_. [silent_post, video_post])) ''https://x.com/u'' 0 0 True ''out'' [] =
     Some (Inr [''https://x.com/u/status/1'', ''https://x.com/u/status/2''],
       \<lparr>fs = [(''out'', []), (''out/u'', [''2.txt''])],
        trace = [Goto ''https://x.com/u'', DirectSave ''/u/status/1'', MkDir ''out'', MkDir ''out/u'',
                 ScrollViewport, WaitFor 1500, ScrollViewport, WaitFor 1500,
                 ScrollViewport, WaitFor 1500, ScrollViewport, WaitFor 1500,
                 BatchStart [''https://x.com/u/status/2''],
                 Goto ''https://x.com/u/status/2'', ScrollBottom, WaitFor 2000,
                 WaitFor 2000, WriteFile ''out/u/2.txt'', Goto ''https://x.com/u'', ClosePage]\<rparr>) \<and>
   full_url ''/u/status/1'' \<notin> set [''https://x.com/u/status/2''] \<and>
   \<not> already_processed [(''out'', []), (''out/u'', [''2.txt''])] ''out/u'' ''1'' \<and>
   ''/u/status/1'' \<in> set (processedTweets (snd (process_items
       (env_of_feed (\<lambda>_. [silent_post, video_post])) 0 True ''out''
       (query_articles [silent_post, video_post])
       \<lparr>uniqueLinks = [], foundIds = 0, processedTweets = [], extracts = 0, wld = empty_world\<rparr>)))"
proof -
  let ?it = "\<lparr>item_href = ''/u/status/1'', item_simple = True, item_text = [], item_images = []\<rparr>"
  let ?it2 = "\<lparr>item_href = ''/u/status/2'', item_simple = False, item_text = ''hello'', item_images = []\<rparr>"
  let ?s0 = "\<lparr>uniqueLinks = [], foundIds = 0, processedTweets = [], extracts = 0, wld = empty_world\<rparr>"
  let ?W = "\<lparr>fs = [(''out'', []), (''out/u'', [''2.txt''])],
        trace = [Goto ''https://x.com/u'', DirectSave ''/u/status/1'', MkDir ''out'', MkDir ''out/u'',
                 ScrollViewport, WaitFor 1500, ScrollViewport, WaitFor 1500,
                 ScrollViewport, WaitFor 1500, ScrollViewport, WaitFor 1500,
                 BatchStart [''https://x.com/u/status/2''],
                 Goto ''https://x.com/u/status/2'', ScrollBottom, WaitFor 2000,
                 WaitFor 2000, WriteFile ''out/u/2.txt'', Goto ''https://x.com/u'', ClosePage]\<rparr>"
  have n: "\<not> already_processed [(''out'', []), (''out/u'', [''2.txt''])] ''out/u'' ''1''"
    by (simp add: already_processed_def hasTextFile_def hasImageFiles_def hasVideoFile_def
          hasVideoInfo_def hasVideoError_def hasScreenshot_def file_exists_def readdir_def
          endsWith_def)
  from simple_posts_never_batched
         [where it = ?it and s = ?s0 and en = "env_of_feed (\<lambda>_. [silent_post, video_post])"
            and limit = 0 and out = "''out''" and its = "[?it2]" and url = "''https://x.com/u''"
            and max_id = 0 and dl = True and ?fs0.0 = "[]"
            and r = "Inr [''https://x.com/u/status/1'', ''https://x.com/u/status/2'']"
            and w' = ?W and h = "''/u/status/1''" and urls = "[''https://x.com/u/status/2'']"]
       silent_run n
  show ?thesis by (simp add: silent_item)
qed

section \<open>Termination of the scroll loop\<close>

text \<open>
  What holds of claim C4 in general. Once no query shows a new post, the loop stops
  after at most four further cycles, and after at most three when \<open>previousSize\<close>
  already equals the size of the link set (\<open>stable_loop_stops\<close>,
  \<open>stable_loop_stops_synced\<close>). When the timeline settles, \<open>find_links\<close> returns
  (\<open>find_links_terminates\<close>). The loop has no bound on the number of scrolls: its
  condition reads \<open>reachedBottom\<close>, \<open>max_id\<close> and \<open>foundIds\<close> only.
\<close>

lemma process_items_quiet:
  "\<forall>it\<in>set its. item_href it \<in> set (uniqueLinks s) \<Longrightarrow>
   process_items en limit dl out its s = (int (length (uniqueLinks s)), s)"
  by (induction its) simp_all

lemma extractLinks_quiet:
  assumes "quiet_from en s"
  shows "extractLinks en limit dl out s =
           (int (length (uniqueLinks s)), s\<lparr>extracts := extracts s + 1\<rparr>)"
proof -
  have "\<forall>it\<in>set (query_articles (feed en (extracts s))).
          item_href it \<in> set (uniqueLinks (s\<lparr>extracts := extracts s + 1\<rparr>))"
    using assms by (auto simp: quiet_from_def)
  then show ?thesis
    unfolding extractLinks_def by (simp add: process_items_quiet)
qed

lemma quiet_from_scrolled: "quiet_from en (scrolled s) = quiet_from en s"
  by (simp add: quiet_from_def scrolled_def)

lemma loop_body_quiet:
  assumes "quiet_from en (st ls)"
  shows "loop_body en limit dl out ls = (False, next_cycle ls)"
proof -
  have "quiet_from en (scrolled (st ls))" using assms by (simp add: quiet_from_scrolled)
  from extractLinks_quiet [OF this, of limit dl out]
  show ?thesis
    by (simp add: loop_body_def next_cycle_def Let_def scrolled_def)
qed

lemma next_cycle_facts:
  "uniqueLinks (st (next_cycle ls)) = uniqueLinks (st ls)"
  "extracts (st (next_cycle ls)) = extracts (st ls) + 1"
  "previousSize (next_cycle ls) = int (length (uniqueLinks (st ls)))"
  by (simp_all add: next_cycle_def Let_def scrolled_def)

lemma next_cycle_quiet:
  assumes "quiet_from en (st ls)"
  shows "quiet_from en (st (next_cycle ls))"
  unfolding quiet_from_def next_cycle_facts
proof (intro allI impI ballI)
  fix k it
  assume "extracts (st ls) + 1 \<le> k" and i: "it \<in> set (query_articles (feed en k))"
  then have "extracts (st ls) \<le> k" by simp
  with assms i show "item_href it \<in> set (uniqueLinks (st ls))"
    unfolding quiet_from_def by blast
qed

lemma scroll_loop_step_quiet:
  assumes "quiet_from en (st ls)" and "loop_cond max_id ls"
  shows "scroll_loop en max_id limit dl out ls = scroll_loop en max_id limit dl out (next_cycle ls)"
  using assms by (subst scroll_loop.simps) (simp add: loop_body_quiet Let_def)

lemma scroll_loop_stop:
  "\<not> loop_cond max_id ls \<Longrightarrow> scroll_loop en max_id limit dl out ls = Some ls"
  by (subst scroll_loop.simps) simp

lemma stable_loop_stops_synced:
  assumes "quiet_from en (st ls)"
      and "previousSize ls = int (length (uniqueLinks (st ls)))"
  shows "\<exists>ls'. scroll_loop en max_id limit dl out ls = Some ls' \<and>
               uniqueLinks (st ls') = uniqueLinks (st ls) \<and>
               extracts (st ls') \<le> extracts (st ls) + max 1 (3 - sameCountIterations ls)"
  using assms
proof (induction "3 - sameCountIterations ls" arbitrary: ls)
  case 0
  show ?case
  proof (cases "loop_cond max_id ls")
    case False
    then show ?thesis by (simp add: scroll_loop_stop)
  next
    case True
    let ?n = "next_cycle ls"
    from "0.hyps" "0.prems"(2) have "reachedBottom ?n"
      by (simp add: next_cycle_def Let_def)
    then have "scroll_loop en max_id limit dl out ?n = Some ?n"
      by (simp add: scroll_loop_stop loop_cond_def)
    with scroll_loop_step_quiet [OF "0.prems"(1) True, of limit dl out]
    show ?thesis by (simp add: next_cycle_facts)
  qed
next
  case (Suc k)
  show ?case
  proof (cases "loop_cond max_id ls")
    case False
    then show ?thesis by (simp add: scroll_loop_stop)
  next
    case True
    let ?n = "next_cycle ls"
    have sc: "sameCountIterations ?n = sameCountIterations ls + 1"
      using Suc.prems(2) by (simp add: next_cycle_def Let_def)
    have step: "scroll_loop en max_id limit dl out ls = scroll_loop en max_id limit dl out ?n"
      using Suc.prems(1) True by (rule scroll_loop_step_quiet)
    have q: "quiet_from en (st ?n)" using Suc.prems(1) by (rule next_cycle_quiet)
    have p: "previousSize ?n = int (length (uniqueLinks (st ?n)))"
      by (simp add: next_cycle_facts)
    show ?thesis
    proof (cases "sameCountIterations ls + 1 \<ge> 3")
      case b: True
      then have "reachedBottom ?n" using Suc.prems(2) by (simp add: next_cycle_def Let_def)
      then have "scroll_loop en max_id limit dl out ?n = Some ?n"
        by (simp add: scroll_loop_stop loop_cond_def)
      with step show ?thesis by (simp add: next_cycle_facts)
    next
      case nb: False
      have "k = 3 - sameCountIterations ?n" using Suc.hyps(2) sc by simp
      from Suc.hyps(1) [OF this q p] obtain ls' where
          r: "scroll_loop en max_id limit dl out ?n = Some ls'"
          and u: "uniqueLinks (st ls') = uniqueLinks (st ?n)"
          and e: "extracts (st ls') \<le> extracts (st ?n) + max 1 (3 - sameCountIterations ?n)"
        by blast
      from e sc nb have "extracts (st ls') \<le> extracts (st ls) + max 1 (3 - sameCountIterations ls)"
        by (simp add: next_cycle_facts)
      with r u step show ?thesis by (simp add: next_cycle_facts)
    qed
  qed
qed

lemma stable_loop_stops:
  assumes q: "quiet_from en (st ls)"
  shows "\<exists>ls'. scroll_loop en max_id limit dl out ls = Some ls' \<and>
               uniqueLinks (st ls') = uniqueLinks (st ls) \<and>
               extracts (st ls') \<le> extracts (st ls) + 4"
proof (cases "previousSize ls = int (length (uniqueLinks (st ls)))")
  case True
  from stable_loop_stops_synced [OF q True, of max_id limit dl out]
  obtain ls' where r: "scroll_loop en max_id limit dl out ls = Some ls'"
      and u: "uniqueLinks (st ls') = uniqueLinks (st ls)"
      and e: "extracts (st ls') \<le> extracts (st ls) + max 1 (3 - sameCountIterations ls)"
    by blast
  from e have "extracts (st ls') \<le> extracts (st ls) + 4" by arith
  with r u show ?thesis by simp
next
  case False
  show ?thesis
  proof (cases "loop_cond max_id ls")
    case nc: False
    then show ?thesis by (simp add: scroll_loop_stop)
  next
    case True
    let ?n = "next_cycle ls"
    have sc: "sameCountIterations ?n = 0"
      using False by (auto simp: next_cycle_def Let_def)
    have step: "scroll_loop en max_id limit dl out ls = scroll_loop en max_id limit dl out ?n"
      using q True by (rule scroll_loop_step_quiet)
    have qn: "quiet_from en (st ?n)" using q by (rule next_cycle_quiet)
    have p: "previousSize ?n = int (length (uniqueLinks (st ?n)))"
      by (simp add: next_cycle_facts)
    from stable_loop_stops_synced [OF qn p, of max_id limit dl out]
    obtain ls' where r: "scroll_loop en max_id limit dl out ?n = Some ls'"
        and u: "uniqueLinks (st ls') = uniqueLinks (st ?n)"
        and e: "extracts (st ls') \<le> extracts (st ?n) + max 1 (3 - sameCountIterations ?n)"
      by blast
    from e sc have "extracts (st ls') \<le> extracts (st ls) + 4"
      by (simp add: next_cycle_facts)
    with r u step show ?thesis by (simp add: next_cycle_facts)
  qed
qed


lemma query_articles_href: "it \<in> set (query_articles articles) \<Longrightarrow> item_href it \<noteq> []"
  by (auto simp: query_articles_def List.map_filter_def item_of_def split: option.splits if_splits)

lemma add_item_set: "set (uniqueLinks (add_item en dl out it s)) = insert (item_href it) (set (uniqueLinks s))"
  by (auto simp: add_item_def Let_def set_add_def)

lemma add_item_extracts: "extracts (add_item en dl out it s) = extracts s"
  by (simp add: add_item_def Let_def)

lemma process_items_complete:
  "fst (process_items en limit dl out its s) \<noteq> - 1 \<Longrightarrow> \<forall>it\<in>set its. item_href it \<noteq> [] \<Longrightarrow>
   set (uniqueLinks (snd (process_items en limit dl out its s))) =
     set (uniqueLinks s) \<union> item_href ` set its \<and>
   extracts (snd (process_items en limit dl out its s)) = extracts s"
proof (induction its arbitrary: s)
  case Nil
  show ?case by simp
next
  case (Cons it its)
  have ne: "item_href it \<noteq> []" and rest: "\<forall>it\<in>set its. item_href it \<noteq> []"
    using Cons.prems(2) by simp_all
  show ?case
  proof (cases "item_href it \<in> set (uniqueLinks s)")
    case True
    with Cons.prems(1) have "fst (process_items en limit dl out its s) \<noteq> - 1" by simp
    from Cons.IH [OF this rest] True show ?thesis by auto
  next
    case False
    let ?s2 = "add_item en dl out it s"
    show ?thesis
    proof (cases "limit > 0 \<and> length (uniqueLinks ?s2) \<ge> limit")
      case True
      with False ne Cons.prems(1) show ?thesis by (simp add: Let_def)
    next
      case nolim: False
      have eq: "process_items en limit dl out (it # its) s = process_items en limit dl out its ?s2"
        using False ne nolim by (auto simp: Let_def)
      with Cons.prems(1) have "fst (process_items en limit dl out its ?s2) \<noteq> - 1" by simp
      from Cons.IH [OF this rest] eq show ?thesis
        by (auto simp: add_item_set add_item_extracts)
    qed
  qed
qed

lemma extractLinks_seen:
  assumes "seen en s" and "fst (extractLinks en limit dl out s) \<noteq> - 1"
  shows "seen en (snd (extractLinks en limit dl out s))"
    and "extracts (snd (extractLinks en limit dl out s)) = extracts s + 1"
proof -
  let ?its = "query_articles (feed en (extracts s))"
  let ?s1 = "s\<lparr>extracts := extracts s + 1\<rparr>"
  have ne: "\<forall>it\<in>set ?its. item_href it \<noteq> []" by (simp add: query_articles_href)
  from assms(2) have "fst (process_items en limit dl out ?its ?s1) \<noteq> - 1"
    by (simp add: extractLinks_def)
  from process_items_complete [OF this ne]
  have u: "set (uniqueLinks (snd (extractLinks en limit dl out s))) =
             set (uniqueLinks s) \<union> item_href ` set ?its"
   and e: "extracts (snd (extractLinks en limit dl out s)) = extracts s + 1"
    by (simp_all add: extractLinks_def)
  show "extracts (snd (extractLinks en limit dl out s)) = extracts s + 1" by (rule e)
  show "seen en (snd (extractLinks en limit dl out s))"
    unfolding seen_def e u
  proof (intro allI impI ballI)
    fix j it
    assume j: "j < extracts s + 1" and i: "it \<in> set (query_articles (feed en j))"
    show "item_href it \<in> set (uniqueLinks s) \<union> item_href ` set ?its"
    proof (cases "j = extracts s")
      case True
      with i show ?thesis by simp
    next
      case False
      with j have "j < extracts s" by simp
      with assms(1) i show ?thesis unfolding seen_def by blast
    qed
  qed
qed

lemma seen_settled_quiet:
  assumes "seen en s" and "settles en K" and "K \<le> extracts s"
  shows "quiet_from en s"
  unfolding quiet_from_def
proof (intro allI impI ballI)
  fix k it
  assume k: "extracts s \<le> k" and i: "it \<in> set (query_articles (feed en k))"
  from k assms(3) have "K \<le> k" by simp
  with assms(2) i obtain j where j: "j < K"
      and h: "item_href it \<in> item_href ` set (query_articles (feed en j))"
    unfolding settles_def by blast
  from j assms(3) have "j < extracts s" by simp
  with assms(1) h show "item_href it \<in> set (uniqueLinks s)"
    unfolding seen_def by auto
qed

lemma seen_scrolled: "seen en (scrolled s) = seen en s"
  by (simp add: seen_def scrolled_def)

lemma settled_loop_stops:
  assumes "settles en K" and "seen en (st ls)"
  shows "\<exists>ls'. scroll_loop en max_id limit dl out ls = Some ls'"
  using assms(2)
proof (induction "K - extracts (st ls)" arbitrary: ls)
  case 0
  then have "K \<le> extracts (st ls)" by simp
  with "0.prems" assms(1) have "quiet_from en (st ls)" by (simp add: seen_settled_quiet)
  from stable_loop_stops [OF this] show ?case by blast
next
  case (Suc n)
  show ?case
  proof (cases "loop_cond max_id ls")
    case False
    then show ?thesis by (simp add: scroll_loop_stop)
  next
    case True
    let ?r = "loop_body en limit dl out ls"
    show ?thesis
    proof (cases "fst ?r")
      case b: True
      with True have "scroll_loop en max_id limit dl out ls = Some (snd ?r)"
        by (subst scroll_loop.simps) (simp add: Let_def)
      then show ?thesis by blast
    next
      case nb: False
      with True have step: "scroll_loop en max_id limit dl out ls =
                             scroll_loop en max_id limit dl out (snd ?r)"
        by (subst scroll_loop.simps) (simp add: Let_def)
      have s0: "seen en (scrolled (st ls))" using Suc.prems by (simp add: seen_scrolled)
      have x: "fst (extractLinks en limit dl out (scrolled (st ls))) \<noteq> - 1"
        using nb by (simp add: loop_body_parts)
      have s1: "seen en (st (snd ?r))"
        using extractLinks_seen(1) [OF s0 x] by (simp add: loop_body_parts)
      have "extracts (st (snd ?r)) = extracts (st ls) + 1"
        using extractLinks_seen(2) [OF s0 x] by (simp add: loop_body_parts scrolled_def)
      with Suc.hyps(2) have "n = K - extracts (st (snd ?r))" by simp
      from Suc.hyps(1) [OF this s1] step show ?thesis by simp
    qed
  qed
qed

lemma find_links_page_terminates:
  assumes "settles en K"
  shows "\<exists>res. find_links_page en url max_id limit dl out fs0 = Some res"
proof -
  let ?w0 = "emit (Goto url) \<lparr>fs = fs0, trace = []\<rparr>"
  obtain r w1 where iw: "initial_wait en ?w0 = (r, w1)"
    by (cases "initial_wait en ?w0") auto
  show ?thesis
  proof (cases r)
    case (Inl e)
    with iw show ?thesis by (simp add: find_links_page_def)
  next
    case (Inr u)
    let ?s0 = "\<lparr>uniqueLinks = [], foundIds = 0, processedTweets = [], extracts = 0, wld = w1\<rparr>"
    let ?x = "extractLinks en limit dl out ?s0"
    show ?thesis
    proof (cases "fst ?x = - 1")
      case True
      with iw Inr show ?thesis by (simp add: find_links_page_def Let_def)
    next
      case False
      have "seen en ?s0" by (simp add: seen_def)
      from extractLinks_seen(1) [OF this False]
      have "seen en (st \<lparr>st = snd ?x, previousSize = 0, sameCountIterations = 0,
                          reachedBottom = False\<rparr>)"
        by simp
      from settled_loop_stops [OF assms this, of max_id limit dl out]
      obtain ls' where "scroll_loop en max_id limit dl out
          \<lparr>st = snd ?x, previousSize = 0, sameCountIterations = 0, reachedBottom = False\<rparr> = Some ls'"
        by blast
      with iw Inr False show ?thesis by (simp add: find_links_page_def Let_def)
    qed
  qed
qed

lemma find_links_terminates:
  assumes "settles en K"
  shows "\<exists>res. find_links en url max_id limit dl out fs0 = Some res"
  using find_links_page_terminates [OF assms, of url max_id limit dl out fs0]
  by (simp add: find_links_cases split: option.splits)

end
